theory Spec2Isabelle
  imports
    Main
    "HOL-Library.Word"
    "HOL-Library.Char_ord"
    "HOL-Library.List_Lexorder"
    "HOL-Library.Multiset"
begin

unbundle bit_operations_syntax

section \<open>Python strings\<close>

text \<open>
  A Python \<open>str\<close> is modelled as a \<open>string\<close> whose characters are code points below 256.
  \<open>contains sub s\<close> is Python's \<open>sub in s\<close> and \<open>startswith s p\<close> is \<open>s.startswith(p)\<close>.
\<close>

fun startswith :: "string \<Rightarrow> string \<Rightarrow> bool" where
  "startswith s [] = True"
| "startswith [] (p # ps) = False"
| "startswith (c # cs) (p # ps) = (c = p \<and> startswith cs ps)"

fun contains :: "string \<Rightarrow> string \<Rightarrow> bool" where
  "contains sub [] = (sub = [])"
| "contains sub (c # cs) = (startswith (c # cs) sub \<or> contains sub cs)"

section \<open>Supervisor: main.py\<close>

subsection \<open>Subprocesses and observable events\<close>

text \<open>
  What \<open>subprocess.Popen\<close> followed by \<open>communicate(timeout=...)\<close> can give the caller:
  \<open>Popen\<close> itself raises, the wait times out, or the child exits with a return code and
  its captured standard output. Standard error is only logged and is left out.
\<close>

datatype proc_result =
    PopenError
  | TimeoutExpired
  | Exited int string

text \<open>
  The supervisor's effects on the outside world, in the order they happen. Logging is
  not recorded.
\<close>

datatype event =
    Popen string
  | Kill string
  | Sleep nat
  | Terminate string
  | SysExit nat

definition max_retries :: nat where
  "max_retries = 3"

definition detector_script :: string where
  "detector_script = ''check_mongo_changes.py''"

definition refresher_script :: string where
  "refresher_script = ''get_mongo_data.py''"

definition api_script :: string where
  "api_script = ''API.py''"

subsection \<open>check_mongodb_changes\<close>

text \<open>
  The body of the \<open>for retry in range(max_retries)\<close> loop of \<open>check_mongodb_changes\<close>,
  as a recursion over the remaining values of \<open>retry\<close>. The first argument runs one
  detector subprocess in the world \<open>w\<close>. The result is what the function returns
  (\<open>None\<close> is Python's \<open>None\<close>, returned when the loop runs out), the events, and the
  world afterwards. An exception of \<open>Popen\<close> reaches the outer handler, which returns
  \<open>False\<close>.
\<close>

fun check_loop ::
  "('w \<Rightarrow> proc_result \<times> 'w) \<Rightarrow> nat list \<Rightarrow> 'w \<Rightarrow> bool option \<times> event list \<times> 'w" where
  "check_loop spawn [] w = (None, [], w)"
| "check_loop spawn (retry # rest) w =
     (case spawn w of
        (PopenError, w') \<Rightarrow> (Some False, [Popen detector_script], w')
      | (TimeoutExpired, w') \<Rightarrow>
          (if retry < max_retries - 1 then
             (case check_loop spawn rest w' of
                (r, tr, w'') \<Rightarrow>
                  (r, [Popen detector_script, Kill detector_script, Sleep 2] @ tr, w''))
           else (Some False, [Popen detector_script, Kill detector_script], w'))
      | (Exited rc out, w') \<Rightarrow>
          (if contains ''YES_CHANGED'' out then (Some True, [Popen detector_script], w')
           else if contains ''NO_CHANGED'' out then (Some False, [Popen detector_script], w')
           else if contains ''ERROR'' out then
             (if retry < max_retries - 1 then
                (case check_loop spawn rest w' of
                   (r, tr, w'') \<Rightarrow> (r, [Popen detector_script, Sleep 2] @ tr, w''))
              else (Some False, [Popen detector_script], w'))
           else
             (if retry < max_retries - 1 then
                (case check_loop spawn rest w' of
                   (r, tr, w'') \<Rightarrow> (r, [Popen detector_script, Sleep 2] @ tr, w''))
              else (Some False, [Popen detector_script], w'))))"

definition check_mongodb_changes ::
  "('w \<Rightarrow> proc_result \<times> 'w) \<Rightarrow> 'w \<Rightarrow> bool option \<times> event list \<times> 'w" where
  "check_mongodb_changes spawn w = check_loop spawn [0..<max_retries] w"

text \<open>Python's truth value of the result, as \<open>if check_mongodb_changes():\<close> reads it.\<close>

definition truthy :: "bool option \<Rightarrow> bool" where
  "truthy r = (r = Some True)"

subsection \<open>run_get_mongo_data\<close>

fun refresh_loop ::
  "('w \<Rightarrow> proc_result \<times> 'w) \<Rightarrow> nat list \<Rightarrow> 'w \<Rightarrow> bool option \<times> event list \<times> 'w" where
  "refresh_loop spawn [] w = (None, [], w)"
| "refresh_loop spawn (retry # rest) w =
     (case spawn w of
        (PopenError, w') \<Rightarrow> (Some False, [Popen refresher_script], w')
      | (TimeoutExpired, w') \<Rightarrow>
          (if retry < max_retries - 1 then
             (case refresh_loop spawn rest w' of
                (r, tr, w'') \<Rightarrow>
                  (r, [Popen refresher_script, Kill refresher_script, Sleep 2] @ tr, w''))
           else (Some False, [Popen refresher_script, Kill refresher_script], w'))
      | (Exited rc out, w') \<Rightarrow>
          (if rc = 0 then (Some True, [Popen refresher_script], w')
           else
             (if retry < max_retries - 1 then
                (case refresh_loop spawn rest w' of
                   (r, tr, w'') \<Rightarrow> (r, [Popen refresher_script, Sleep 2] @ tr, w''))
              else (Some False, [Popen refresher_script], w'))))"

definition run_get_mongo_data ::
  "('w \<Rightarrow> proc_result \<times> 'w) \<Rightarrow> 'w \<Rightarrow> bool option \<times> event list \<times> 'w" where
  "run_get_mongo_data spawn w = refresh_loop spawn [0..<max_retries] w"

subsection \<open>main\<close>

text \<open>
  The operating system as \<open>main\<close> sees it: the port probe, the two short-lived
  subprocesses, starting \<open>API.py\<close> (which gives a process handle), and \<open>poll()\<close> on a
  handle (\<open>True\<close> when the process has exited).
\<close>

record 'w os =
  is_api_server_running :: "'w \<Rightarrow> bool"
  run_detector :: "'w \<Rightarrow> proc_result \<times> 'w"
  run_refresher :: "'w \<Rightarrow> proc_result \<times> 'w"
  popen_api :: "'w \<Rightarrow> nat \<times> 'w"
  has_exited :: "nat \<Rightarrow> 'w \<Rightarrow> bool"

text \<open>
  The liveness block at the top of the loop body:
  \<open>if api_process is not None and api_process.poll() is not None\<close>, start \<open>API.py\<close>
  again and keep the new handle.
\<close>

definition restart_api ::
  "'w os \<Rightarrow> nat option \<Rightarrow> 'w \<Rightarrow> nat option \<times> event list \<times> 'w" where
  "restart_api sys api_process w =
     (case api_process of
        None \<Rightarrow> (None, [], w)
      | Some h \<Rightarrow>
          (if has_exited sys h w then
             (case popen_api sys w of (h', w1) \<Rightarrow> (Some h', [Popen api_script], w1))
           else (Some h, [], w)))"

text \<open>
  One pass through the body of \<open>while True\<close>: sleep, the liveness block, the check,
  and the refresh on a change. \<open>sleep_time\<close> is the value read from \<open>CHECK_INTERVAL\<close>.
\<close>

definition iteration ::
  "'w os \<Rightarrow> nat \<Rightarrow> nat option \<Rightarrow> 'w \<Rightarrow> nat option \<times> event list \<times> 'w" where
  "iteration sys sleep_time api_process w =
     (case restart_api sys api_process w of
        (api_process', tr1, w1) \<Rightarrow>
          (case check_mongodb_changes (run_detector sys) w1 of
             (changed, tr2, w2) \<Rightarrow>
               (if truthy changed then
                  (case run_get_mongo_data (run_refresher sys) w2 of
                     (data_success, tr3, w3) \<Rightarrow>
                       (api_process', [Sleep sleep_time] @ tr1 @ tr2 @ tr3, w3))
                else (api_process', [Sleep sleep_time] @ tr1 @ tr2, w2))))"

text \<open>
  The loop runs until an exception leaves it: \<open>KeyboardInterrupt\<close>, or any other
  exception, each with its handler. Here it runs \<open>n\<close> full passes first.
\<close>

datatype stop = KeyboardInterrupt | UnexpectedError

fun main_loop ::
  "'w os \<Rightarrow> nat \<Rightarrow> nat \<Rightarrow> nat option \<Rightarrow> 'w \<Rightarrow> nat option \<times> event list \<times> 'w" where
  "main_loop sys sleep_time 0 api_process w = (api_process, [], w)"
| "main_loop sys sleep_time (Suc n) api_process w =
     (case iteration sys sleep_time api_process w of
        (api_process', tr, w') \<Rightarrow>
          (case main_loop sys sleep_time n api_process' w' of
             (api_process'', tr', w'') \<Rightarrow> (api_process'', tr @ tr', w'')))"

text \<open>
  \<open>main\<close>: the startup decision, the loop, and the two handlers, each of which
  terminates the API process only when a handle is held.
\<close>

definition main :: "'w os \<Rightarrow> nat \<Rightarrow> nat \<Rightarrow> stop \<Rightarrow> 'w \<Rightarrow> event list \<times> 'w" where
  "main sys sleep_time n ending w =
     (case (if is_api_server_running sys w then (Some None, [], w)
            else
              (case run_get_mongo_data (run_refresher sys) w of
                 (initial_data_success, tr0, w0) \<Rightarrow>
                   (if truthy initial_data_success then
                      (case popen_api sys w0 of
                         (h, w1) \<Rightarrow> (Some (Some h), tr0 @ [Popen api_script], w1))
                    else (None, tr0 @ [SysExit 1], w0)))) of
        (None, tr, w1) \<Rightarrow> (tr, w1)
      | (Some api_process, tr, w1) \<Rightarrow>
          (case main_loop sys sleep_time n api_process w1 of
             (api_process', tr', w2) \<Rightarrow>
               (case ending of
                  KeyboardInterrupt \<Rightarrow>
                    (case api_process' of
                       None \<Rightarrow> (tr @ tr', w2)
                     | Some h \<Rightarrow> (tr @ tr' @ [Terminate api_script], w2))
                | UnexpectedError \<Rightarrow>
                    (case api_process' of
                       None \<Rightarrow> (tr @ tr', w2)
                     | Some h \<Rightarrow> (tr @ tr' @ [Terminate api_script], w2)))))"

text \<open>An outcome that makes the check step retry: a timeout, or output without a verdict.\<close>

fun no_verdict :: "proc_result \<Rightarrow> bool" where
  "no_verdict PopenError = False"
| "no_verdict TimeoutExpired = True"
| "no_verdict (Exited rc out) = (\<not> contains ''YES_CHANGED'' out \<and> \<not> contains ''NO_CHANGED'' out)"

fun is_kill :: "event \<Rightarrow> bool" where
  "is_kill (Kill s) = True"
| "is_kill e = False"

section \<open>Documents and their serialisation\<close>

subsection \<open>Exceptions\<close>

datatype error =
    ConnectionFailure
  | OperationFailure
  | TypeError
  | OSError
  | AttributeError
  | ValueError
  | FileNotFoundError
  | ApiPredictionException error

subsection \<open>Values of a document\<close>

text \<open>
  The values a document read through the driver can hold. A \<open>dict\<close> is the list of its
  items in insertion order; its keys are distinct (\<open>wf_json\<close>). A \<open>float\<close> is kept as the
  text \<open>float.__repr__\<close> gives for it, which is what the encoder writes. \<open>JOther\<close> stands
  for the values the encoder refuses with \<open>TypeError\<close> (\<open>datetime\<close>, \<open>ObjectId\<close>,
  \<open>bytes\<close>, ...).
\<close>

datatype json =
    JNull
  | JBool bool
  | JInt int
  | JFloat string
  | JStr string
  | JList "json list"
  | JDict "(string \<times> json) list"
  | JOther

fun wf_json :: "json \<Rightarrow> bool" where
  "wf_json (JList xs) = (\<forall>x \<in> set xs. wf_json x)"
| "wf_json (JDict kvs) = (distinct (map fst kvs) \<and> (\<forall>kv \<in> set kvs. wf_json (snd kv)))"
| "wf_json v = True"

fun serializable :: "json \<Rightarrow> bool" where
  "serializable (JList xs) = (\<forall>x \<in> set xs. serializable x)"
| "serializable (JDict kvs) = (\<forall>kv \<in> set kvs. serializable (snd kv))"
| "serializable JOther = False"
| "serializable v = True"

subsection \<open>json.dumps(..., sort_keys=True)\<close>

definition hex_digit :: "8 word \<Rightarrow> char" where
  "hex_digit n = ''0123456789abcdef'' ! unat n"

definition hex_byte :: "8 word \<Rightarrow> string" where
  "hex_byte b = [hex_digit (drop_bit 4 b), hex_digit (b AND 0x0f)]"

text \<open>
  \<open>py_encode_basestring_ascii\<close>: the quote and the backslash are escaped, the control
  characters with a short form take it, every other character outside \<open>' '..'~'\<close>
  becomes \<open>\u00XX\<close>.
\<close>

definition escape_char :: "char \<Rightarrow> string" where
  "escape_char c =
     (if c = CHR 0x22 then [CHR 0x5C, CHR 0x22]
      else if c = CHR 0x5C then [CHR 0x5C, CHR 0x5C]
      else if c = CHR 0x0A then [CHR 0x5C, CHR ''n'']
      else if c = CHR 0x0D then [CHR 0x5C, CHR ''r'']
      else if c = CHR 0x09 then [CHR 0x5C, CHR ''t'']
      else if c = CHR 0x08 then [CHR 0x5C, CHR ''b'']
      else if c = CHR 0x0C then [CHR 0x5C, CHR ''f'']
      else if (32::nat) \<le> of_char c \<and> of_char c \<le> (126::nat) then [c]
      else [CHR 0x5C, CHR ''u'', CHR ''0'', CHR ''0''] @ hex_byte (of_char c))"

definition encode_basestring_ascii :: "string \<Rightarrow> string" where
  "encode_basestring_ascii s = [CHR 0x22] @ concat (map escape_char s) @ [CHR 0x22]"

fun digits10 :: "nat \<Rightarrow> string" where
  "digits10 n =
     (if n < 10 then [''0123456789'' ! n]
      else digits10 (n div 10) @ [''0123456789'' ! (n mod 10)])"

declare digits10.simps [simp del]

definition str_int :: "int \<Rightarrow> string" where
  "str_int i = (if i < 0 then CHR ''-'' # digits10 (nat (- i)) else digits10 (nat i))"

fun join :: "string \<Rightarrow> string list \<Rightarrow> string" where
  "join sep [] = []"
| "join sep [x] = x"
| "join sep (x # y # ys) = x @ sep @ join sep (y # ys)"

text \<open>
  The encoder with the default separators \<open>', '\<close> and \<open>': '\<close>. With \<open>sort_keys=True\<close>
  the items of every \<open>dict\<close> are written in the order of their keys; a list is written
  in the order it has. On a value that is not \<open>serializable\<close> the encoder raises, so
  the text for \<open>JOther\<close> is never used.
\<close>

function dumps :: "json \<Rightarrow> string" where
  "dumps JNull = ''null''"
| "dumps (JBool b) = (if b then ''true'' else ''false'')"
| "dumps (JInt i) = str_int i"
| "dumps (JFloat r) = r"
| "dumps (JStr s) = encode_basestring_ascii s"
| "dumps (JList xs) = ''['' @ join '', '' (map dumps xs) @ '']''"
| "dumps (JDict kvs) =
     ''{'' @ join '', ''
        (map (\<lambda>kv. encode_basestring_ascii (fst kv) @ '': '' @ dumps (snd kv))
           (sort_key fst kvs)) @ ''}''"
| "dumps JOther = []"
  by pat_completeness auto
termination
proof (relation "measure size")
  show "wf (measure (size :: json \<Rightarrow> nat))" by simp
next
  fix xs :: "json list" and x
  assume "x \<in> set xs"
  then show "(x, JList xs) \<in> measure size"
    by (induction xs) auto
next
  fix kvs :: "(string \<times> json) list" and kv
  assume "kv \<in> set (sort_key fst kvs)"
  then have "kv \<in> set kvs" by simp
  then show "(snd kv, JDict kvs) \<in> measure size"
    by (induction kvs) auto
qed

definition json_dumps :: "json \<Rightarrow> error + string" where
  "json_dumps v = (if serializable v then Inr (dumps v) else Inl TypeError)"

subsection \<open>hashlib.md5\<close>

text \<open>
  MD5 as RFC 1321 gives it, on bytes, with 32-bit words that wrap around. \<open>md5_s\<close> are
  the per-round shift amounts and \<open>md5_K\<close> the constants \<open>floor(2^32 * abs(sin(i + 1)))\<close>.
\<close>

definition md5_s :: "nat list" where
  "md5_s =
    [7, 12, 17, 22, 7, 12, 17, 22, 7, 12, 17, 22, 7, 12, 17, 22,
     5, 9, 14, 20, 5, 9, 14, 20, 5, 9, 14, 20, 5, 9, 14, 20,
     4, 11, 16, 23, 4, 11, 16, 23, 4, 11, 16, 23, 4, 11, 16, 23,
     6, 10, 15, 21, 6, 10, 15, 21, 6, 10, 15, 21, 6, 10, 15, 21]"

definition md5_K :: "32 word list" where
  "md5_K =
    [0xd76aa478, 0xe8c7b756, 0x242070db, 0xc1bdceee,
     0xf57c0faf, 0x4787c62a, 0xa8304613, 0xfd469501,
     0x698098d8, 0x8b44f7af, 0xffff5bb1, 0x895cd7be,
     0x6b901122, 0xfd987193, 0xa679438e, 0x49b40821,
     0xf61e2562, 0xc040b340, 0x265e5a51, 0xe9b6c7aa,
     0xd62f105d, 0x02441453, 0xd8a1e681, 0xe7d3fbc8,
     0x21e1cde6, 0xc33707d6, 0xf4d50d87, 0x455a14ed,
     0xa9e3e905, 0xfcefa3f8, 0x676f02d9, 0x8d2a4c8a,
     0xfffa3942, 0x8771f681, 0x6d9d6122, 0xfde5380c,
     0xa4beea44, 0x4bdecfa9, 0xf6bb4b60, 0xbebfbc70,
     0x289b7ec6, 0xeaa127fa, 0xd4ef3085, 0x04881d05,
     0xd9d4d039, 0xe6db99e5, 0x1fa27cf8, 0xc4ac5665,
     0xf4292244, 0x432aff97, 0xab9423a7, 0xfc93a039,
     0x655b59c3, 0x8f0ccc92, 0xffeff47d, 0x85845dd1,
     0x6fa87e4f, 0xfe2ce6e0, 0xa3014314, 0x4e0811a1,
     0xf7537e82, 0xbd3af235, 0x2ad7d2bb, 0xeb86d391]"

definition leftrotate :: "32 word \<Rightarrow> nat \<Rightarrow> 32 word" where
  "leftrotate x c = push_bit c x OR drop_bit (32 - c) x"

text \<open>
  Padding: the byte \<open>0x80\<close>, zero bytes up to 56 modulo 64, and the length of the
  message in bits as 64 bits, least significant byte first.
\<close>

definition md5_pad :: "8 word list \<Rightarrow> 8 word list" where
  "md5_pad bs =
     bs @ [0x80] @ replicate ((119 - length bs mod 64) mod 64) 0
        @ map (\<lambda>i. ucast (drop_bit (8 * i) (push_bit 3 (of_nat (length bs) :: 64 word))))
            [0..<8]"

fun chunks :: "'a list \<Rightarrow> 'a list list" where
  "chunks [] = []"
| "chunks (x # xs) = take 64 (x # xs) # chunks (drop 64 (x # xs))"

fun le_word :: "8 word list \<Rightarrow> 32 word" where
  "le_word [] = 0"
| "le_word (b # bs) = ucast b OR push_bit 8 (le_word bs)"

definition chunk_words :: "8 word list \<Rightarrow> 32 word list" where
  "chunk_words c = map (\<lambda>j. le_word (take 4 (drop (4 * j) c))) [0..<16]"

type_synonym md5_state = "32 word \<times> 32 word \<times> 32 word \<times> 32 word"

fun md5_step :: "32 word list \<Rightarrow> md5_state \<Rightarrow> nat \<Rightarrow> md5_state" where
  "md5_step M (A, B, C, D) i =
     (let F = (if i < 16 then (B AND C) OR (NOT B AND D)
               else if i < 32 then (D AND B) OR (NOT D AND C)
               else if i < 48 then B XOR C XOR D
               else C XOR (B OR NOT D));
          g = (if i < 16 then i
               else if i < 32 then (5 * i + 1) mod 16
               else if i < 48 then (3 * i + 5) mod 16
               else (7 * i) mod 16)
      in (D, B + leftrotate (F + A + md5_K ! i + M ! g) (md5_s ! i), B, C))"

fun md5_chunk :: "md5_state \<Rightarrow> 8 word list \<Rightarrow> md5_state" where
  "md5_chunk (a0, b0, c0, d0) c =
     (case foldl (md5_step (chunk_words c)) (a0, b0, c0, d0) [0..<64] of
        (A, B, C, D) \<Rightarrow> (a0 + A, b0 + B, c0 + C, d0 + D))"

definition word_hex :: "32 word \<Rightarrow> string" where
  "word_hex x = concat (map (\<lambda>i. hex_byte (ucast (drop_bit (8 * i) x))) [0..<4])"

definition md5_hexdigest :: "8 word list \<Rightarrow> string" where
  "md5_hexdigest bs =
     (case foldl md5_chunk (0x67452301, 0xefcdab89, 0x98badcfe, 0x10325476)
             (chunks (md5_pad bs)) of
        (a, b, c, d) \<Rightarrow> word_hex a @ word_hex b @ word_hex c @ word_hex d)"

text \<open>
  \<open>str.encode()\<close>. The encoder's output is ASCII, where UTF-8 writes each character as
  the byte of its code point.
\<close>

definition encode :: "string \<Rightarrow> 8 word list" where
  "encode s = map of_char s"

section \<open>Change Detector: check_mongo_changes.py\<close>

subsection \<open>The document store\<close>

text \<open>
  A database as the driver shows it: \<open>list_collection_names()\<close> and the documents of a
  collection in the order the cursor returns them; either call can raise. A client maps
  a database name to the database. \<open>mongo\<close> gives, for the \<open>retry\<close>-th attempt of a
  process, what \<open>MongoClient(...)\<close> followed by \<open>ping\<close> gives: an exception, or a client.
\<close>

record database =
  list_collection_names :: "error + string list"
  documents :: "string \<Rightarrow> error + json list"

type_synonym client = "string \<Rightarrow> database"

type_synonym mongo = "nat \<Rightarrow> error + client"

definition DATABASES :: "string list" where
  "DATABASES = [''BACHV_BB_STOCKS'', ''BACHV_UD_STOCKS'']"

text \<open>The projection \<open>{'_id': 0}\<close> removes the top-level key \<open>_id\<close> of every document.\<close>

fun drop_id :: "json \<Rightarrow> json" where
  "drop_id (JDict kvs) = JDict (filter (\<lambda>kv. fst kv \<noteq> ''_id'') kvs)"
| "drop_id v = v"

definition find :: "database \<Rightarrow> string \<Rightarrow> error + json list" where
  "find db coll =
     (case documents db coll of Inl e \<Rightarrow> Inl e | Inr docs \<Rightarrow> Inr (map drop_id docs))"

text \<open>
  \<open>sorted(collections, reverse=True)[0]\<close> over the names that start with \<open>Net_Data_\<close>;
  \<open>None\<close> when there is none.
\<close>

definition latest_of :: "string list \<Rightarrow> string option" where
  "latest_of names =
     (case rev (sort (filter (\<lambda>coll. startswith coll ''Net_Data_'') names)) of
        [] \<Rightarrow> None
      | latest_collection # _ \<Rightarrow> Some latest_collection)"

text \<open>The detector's \<open>get_latest_collection\<close> turns an exception into \<open>None\<close>.\<close>

definition get_latest_collection :: "client \<Rightarrow> string \<Rightarrow> string option" where
  "get_latest_collection mongo_client database =
     (case list_collection_names (mongo_client database) of
        Inl e \<Rightarrow> None
      | Inr names \<Rightarrow> latest_of names)"

subsection \<open>get_mongodb_data_hash\<close>

text \<open>
  The loop over \<open>DATABASES\<close> that builds \<open>all_data\<close>: a database without a latest
  collection is skipped, an exception of \<open>find\<close> leaves the loop.
\<close>

fun collect_all_data :: "client \<Rightarrow> string list \<Rightarrow> error + json list" where
  "collect_all_data mongo_client [] = Inr []"
| "collect_all_data mongo_client (database # rest) =
     (case get_latest_collection mongo_client database of
        None \<Rightarrow> collect_all_data mongo_client rest
      | Some latest_collection \<Rightarrow>
          (case find (mongo_client database) latest_collection of
             Inl e \<Rightarrow> Inl e
           | Inr docs \<Rightarrow>
               (case collect_all_data mongo_client rest of
                  Inl e \<Rightarrow> Inl e
                | Inr all_data \<Rightarrow>
                    Inr (JDict [(''database'', JStr database),
                                (''collection'', JStr latest_collection),
                                (''data'', JList docs)] # all_data))))"

text \<open>The body of the \<open>try\<close> after the connection is made.\<close>

definition hash_of_client :: "client \<Rightarrow> error + string" where
  "hash_of_client mongo_client =
     (case collect_all_data mongo_client DATABASES of
        Inl e \<Rightarrow> Inl e
      | Inr all_data \<Rightarrow>
          (case json_dumps (JList all_data) of
             Inl e \<Rightarrow> Inl e
           | Inr data_string \<Rightarrow> Inr (md5_hexdigest (encode data_string))))"

definition attempt_hash :: "mongo \<Rightarrow> nat \<Rightarrow> error + string" where
  "attempt_hash m retry = (case m retry of Inl e \<Rightarrow> Inl e | Inr c \<Rightarrow> hash_of_client c)"

text \<open>
  \<open>for retry in range(max_retries)\<close>: the first attempt that succeeds returns the hash;
  a failed attempt sleeps and goes on, the last failed attempt returns \<open>None\<close>. The
  sleeps between attempts are not recorded.
\<close>

fun hash_loop :: "mongo \<Rightarrow> nat list \<Rightarrow> string option" where
  "hash_loop m [] = None"
| "hash_loop m (retry # rest) =
     (case attempt_hash m retry of
        Inr data_hash \<Rightarrow> Some data_hash
      | Inl e \<Rightarrow> (if retry < max_retries - 1 then hash_loop m rest else None))"

definition get_mongodb_data_hash :: "mongo \<Rightarrow> string option" where
  "get_mongodb_data_hash m = hash_loop m [0..<max_retries]"

subsection \<open>The fingerprint file\<close>

text \<open>
  \<open>last_data_hash.txt\<close>: its content (\<open>None\<close> when the file does not exist), and what
  the operating system lets the detector do with it. \<open>readable\<close>: opening the file for
  reading and reading it succeed. \<open>writable\<close>: opening the file for writing, the write
  and the close all succeed. When they do not, \<open>fails_after_open\<close> tells where the
  fault is: when it holds, \<open>open(HASH_FILE, 'w')\<close> succeeds, so the file is created or
  truncated, and the write or the close raises, which leaves the file empty; otherwise
  \<open>open\<close> itself raises and the file is as it was. \<open>writes\<close> counts the times the file
  has been opened for writing, each of which changes the file.
\<close>

record fs =
  hash_file :: "string option"
  readable :: bool
  writable :: bool
  fails_after_open :: bool
  writes :: nat

definition read_hash_file :: "fs \<Rightarrow> error + string" where
  "read_hash_file f =
     (case hash_file f of
        None \<Rightarrow> Inl OSError
      | Some text \<Rightarrow> (if readable f then Inr text else Inl OSError))"

text \<open>
  \<open>with open(HASH_FILE, 'w') as f: f.write(text)\<close>: the exception, if any, and the file
  system afterwards.
\<close>

definition write_hash_file :: "string \<Rightarrow> fs \<Rightarrow> error option \<times> fs" where
  "write_hash_file text f =
     (if writable f then (None, f\<lparr>hash_file := Some text, writes := writes f + 1\<rparr>)
      else if fails_after_open f then
        (Some OSError, f\<lparr>hash_file := Some [], writes := writes f + 1\<rparr>)
      else (Some OSError, f))"

text \<open>\<open>str.strip()\<close>: the white space of \<open>str.isspace\<close> among the code points below 256.\<close>

definition isspace :: "char \<Rightarrow> bool" where
  "isspace c =
     (of_char c \<in> {9, 10, 11, 12, 13, 28, 29, 30, 31, 32, 133, 160 :: nat})"

definition strip :: "string \<Rightarrow> string" where
  "strip s = rev (dropWhile isspace (rev (dropWhile isspace s)))"

subsection \<open>has_data_changed and the script\<close>

text \<open>
  The result is the returned truth value, or the exception that leaves the function,
  with the file system afterwards.
\<close>

definition has_data_changed :: "mongo \<Rightarrow> fs \<Rightarrow> (error + bool) \<times> fs" where
  "has_data_changed m f =
     (case get_mongodb_data_hash m of
        None \<Rightarrow> (Inr False, f)
      | Some current_hash \<Rightarrow>
          (if hash_file f = None then
             (case write_hash_file current_hash f of
                (Some e, f') \<Rightarrow> (Inl e, f')
              | (None, f') \<Rightarrow> (Inr True, f'))
           else
             (case read_hash_file f of
                Inl e \<Rightarrow> (Inl e, f)
              | Inr text \<Rightarrow>
                  (let previous_hash = strip text;
                       has_changed = (current_hash \<noteq> previous_hash)
                   in if has_changed then
                        (case write_hash_file current_hash f of
                           (Some e, f') \<Rightarrow> (Inl e, f')
                         | (None, f') \<Rightarrow> (Inr has_changed, f'))
                      else (Inr has_changed, f)))))"

text \<open>
  The script's \<open>__main__\<close>: what it prints on standard output (the log handlers write to
  the log file and to standard error), and the file system afterwards.
\<close>

definition detector_main :: "mongo \<Rightarrow> fs \<Rightarrow> string \<times> fs" where
  "detector_main m f =
     (case has_data_changed m f of
        (Inr result, f') \<Rightarrow>
          (if result then (''YES_CHANGED'' @ [CHR 0x0A], f')
           else (''NO_CHANGED'' @ [CHR 0x0A], f'))
      | (Inl e, f') \<Rightarrow> (''ERROR'' @ [CHR 0x0A], f'))"

subsection \<open>The same data\<close>

text \<open>
  Two values hold the same data when they differ at most in the order of the items of
  their \<open>dict\<close>s, at any depth: a \<open>dict\<close> is the same as one whose items are a
  rearrangement of items with the same keys and the same data as values. Lists hold
  the same data when their elements do, position by position.
\<close>

inductive same_data :: "json \<Rightarrow> json \<Rightarrow> bool" where
  same_value: "same_data v v"
| same_list: "list_all2 same_data xs ys \<Longrightarrow> same_data (JList xs) (JList ys)"
| same_dict:
    "list_all2 (\<lambda>kv kv'. fst kv = fst kv' \<and> same_data (snd kv) (snd kv')) kvs kvs'
     \<Longrightarrow> mset kvs' = mset kvs''
     \<Longrightarrow> same_data (JDict kvs) (JDict kvs'')"

text \<open>
  Two clients show the same store when, for every configured database, the listings
  hold the same collection names (or both fail), and every collection gives the same
  number of documents, holding the same data in the order the cursor returns them (or
  the same exception). Every document is a well-formed value.
\<close>

definition wf_client :: "client \<Rightarrow> bool" where
  "wf_client c =
     (\<forall>db coll docs. documents (c db) coll = Inr docs \<longrightarrow> (\<forall>d \<in> set docs. wf_json d))"

definition same_store :: "client \<Rightarrow> client \<Rightarrow> bool" where
  "same_store c1 c2 =
     (wf_client c1 \<and> wf_client c2
      \<and> (\<forall>db \<in> set DATABASES.
            rel_sum (\<lambda>e e'. True) (\<lambda>ns ns'. set ns = set ns')
              (list_collection_names (c1 db)) (list_collection_names (c2 db))
            \<and> (\<forall>coll. rel_sum (=) (list_all2 same_data)
                  (documents (c1 db) coll) (documents (c2 db) coll))))"

section \<open>Data Refresher: get_mongo_data.py\<close>

subsection \<open>NetworkDataFetch\<close>

text \<open>
  \<open>__init__\<close>: up to \<open>max_retries\<close> attempts to connect and ping; the first success
  leaves the loop, the last failure raises \<open>ApiPredictionException\<close>. The sleeps between
  attempts are not recorded. The loop cannot run out, since its last pass breaks or
  raises; the first equation gives the error a later use of the missing attribute
  would raise.
\<close>

fun init_loop :: "mongo \<Rightarrow> nat list \<Rightarrow> error + client" where
  "init_loop m [] = Inl AttributeError"
| "init_loop m (retry # rest) =
     (case m retry of
        Inr mongo_client \<Rightarrow> Inr mongo_client
      | Inl e \<Rightarrow>
          (if retry < max_retries - 1 then init_loop m rest
           else Inl (ApiPredictionException e)))"

definition NetworkDataFetch :: "mongo \<Rightarrow> error + client" where
  "NetworkDataFetch m = init_loop m [0..<max_retries]"

text \<open>The refresher's \<open>get_latest_collection\<close> raises where the detector's returns \<open>None\<close>.\<close>

definition get_latest_collection_r :: "client \<Rightarrow> string \<Rightarrow> error + string option" where
  "get_latest_collection_r mongo_client database =
     (case list_collection_names (mongo_client database) of
        Inl e \<Rightarrow> Inl (ApiPredictionException e)
      | Inr names \<Rightarrow> Inr (latest_of names))"

definition fetch_data_from_mongodb :: "client \<Rightarrow> string \<Rightarrow> string \<Rightarrow> error + json list" where
  "fetch_data_from_mongodb mongo_client database collection =
     (case find (mongo_client database) collection of
        Inl e \<Rightarrow> Inl (ApiPredictionException e)
      | Inr data \<Rightarrow> Inr data)"

text \<open>
  The snapshot directory tree: every file written so far, newest first, as its path and
  the records it holds, and whether \<open>os.makedirs\<close> and the write of a file succeed.
\<close>

record snapshot_fs =
  csv_files :: "(string \<times> json list) list"
  can_makedirs :: bool
  can_write :: bool

definition save_to_csv :: "json list \<Rightarrow> string \<Rightarrow> snapshot_fs \<Rightarrow> (error + string) \<times> snapshot_fs" where
  "save_to_csv data output_path s =
     (if can_write s then (Inr output_path, s\<lparr>csv_files := (output_path, data) # csv_files s\<rparr>)
      else (Inl (ApiPredictionException OSError), s))"

definition sub_dir_of :: "string \<Rightarrow> string" where
  "sub_dir_of database =
     (if contains ''BB'' database then ''BB''
      else if contains ''UD'' database then ''UD''
      else ''Other'')"

definition output_file_of :: "string \<Rightarrow> string \<Rightarrow> string" where
  "output_file_of database current_time =
     ''Get_Data'' @ ''/'' @ sub_dir_of database @ ''/'' @ ''mongodb_data'' @ ''_''
       @ current_time @ ''.csv''"

text \<open>
  \<open>fetch_and_save_data\<close> with the default prefix and the base directory \<open>Get_Data\<close>.
  \<open>current_time\<close> is the formatted \<open>datetime.now()\<close>. Every exception inside is wrapped
  once more by the outer handler.
\<close>

definition fetch_and_save_data ::
  "client \<Rightarrow> string \<Rightarrow> string \<Rightarrow> snapshot_fs \<Rightarrow> (error + string option) \<times> snapshot_fs" where
  "fetch_and_save_data mongo_client current_time database s =
     (if \<not> can_makedirs s then (Inl (ApiPredictionException OSError), s)
      else
        (case get_latest_collection_r mongo_client database of
           Inl e \<Rightarrow> (Inl (ApiPredictionException e), s)
         | Inr None \<Rightarrow> (Inr None, s)
         | Inr (Some latest_collection) \<Rightarrow>
             (case fetch_data_from_mongodb mongo_client database latest_collection of
                Inl e \<Rightarrow> (Inl (ApiPredictionException e), s)
              | Inr data \<Rightarrow>
                  (if length data = 0 then (Inr None, s)
                   else
                     (case save_to_csv data (output_file_of database current_time) s of
                        (Inl e, s') \<Rightarrow> (Inl (ApiPredictionException e), s')
                      | (Inr saved_file, s') \<Rightarrow> (Inr (Some saved_file), s'))))))"

subsection \<open>The script\<close>

text \<open>
  The loop \<open>for db in DATABASES\<close>: the outcome of every database is logged, an
  exception is caught, and the loop goes on. \<open>clock\<close> gives the time read while a
  database is processed. The result lists, per database, what was logged.
\<close>

fun process_databases ::
  "client \<Rightarrow> (string \<Rightarrow> string) \<Rightarrow> string list \<Rightarrow> snapshot_fs
     \<Rightarrow> (string \<times> (error + string option)) list \<times> snapshot_fs" where
  "process_databases mongo_client clock [] s = ([], s)"
| "process_databases mongo_client clock (db # rest) s =
     (case fetch_and_save_data mongo_client (clock db) db s of
        (result, s') \<Rightarrow>
          (case process_databases mongo_client clock rest s' of
             (results, s'') \<Rightarrow> ((db, result) # results, s'')))"

text \<open>
  \<open>__main__\<close>: an exception of the constructor is not caught and ends the process with
  exit status 1; otherwise the script runs to its end and the exit status is 0.
\<close>

definition refresher_main ::
  "mongo \<Rightarrow> (string \<Rightarrow> string) \<Rightarrow> snapshot_fs
     \<Rightarrow> int \<times> (string \<times> (error + string option)) list \<times> snapshot_fs" where
  "refresher_main m clock s =
     (case NetworkDataFetch m of
        Inl e \<Rightarrow> (1, [], s)
      | Inr network_fetch \<Rightarrow>
          (case process_databases network_fetch clock DATABASES s of
             (results, s') \<Rightarrow> (0, results, s')))"

text \<open>The paths of the snapshots a run reports as saved.\<close>

fun saved_files :: "(string \<times> (error + string option)) list \<Rightarrow> string list" where
  "saved_files [] = []"
| "saved_files ((db, Inr (Some path)) # rs) = path # saved_files rs"
| "saved_files ((db, r) # rs) = saved_files rs"

section \<open>API: get_latest_csv\<close>

text \<open>
  What \<open>get_latest_csv\<close> reads of the file system, per data directory: whether the
  directory exists, the paths \<open>glob\<close> returns in the order the listing gives them, the
  creation time of a path, whether it is a regular file, and whether \<open>pd.read_csv\<close>
  loads it. Creation times are compared only, so any linear order stands for them.
\<close>

record 't data_dir =
  dir_exists :: bool
  glob :: "string list"
  getctime :: "string \<Rightarrow> 't"
  isfile :: "string \<Rightarrow> bool"
  read_csv_ok :: "string \<Rightarrow> bool"

text \<open>\<open>str.upper()\<close> on the ASCII letters.\<close>

definition upper_char :: "char \<Rightarrow> char" where
  "upper_char c =
     (if (97::nat) \<le> of_char c \<and> of_char c \<le> (122::nat)
      then char_of (of_char c - (32::nat)) else c)"

definition upper :: "string \<Rightarrow> string" where
  "upper s = map upper_char s"

text \<open>
  Python's \<open>max(xs, key=f)\<close> on a list with first element \<open>best\<close>: a later element
  replaces the current one only when its key is strictly greater.
\<close>

fun max_key :: "('a \<Rightarrow> 'k::linorder) \<Rightarrow> 'a \<Rightarrow> 'a list \<Rightarrow> 'a" where
  "max_key key best [] = best"
| "max_key key best (x # xs) = max_key key (if key best < key x then x else best) xs"

text \<open>
  \<open>get_latest_csv\<close>: every exception inside becomes \<open>HTTPException(500)\<close>, here the
  \<open>Inl\<close> with the exception that caused it. The argument \<open>dirs\<close> maps the name of the
  subdirectory of \<open>Get_Data\<close> to the directory.
\<close>

definition get_latest_csv :: "(string \<Rightarrow> 't::linorder data_dir) \<Rightarrow> string \<Rightarrow> error + string" where
  "get_latest_csv dirs data_type =
     (if upper data_type \<notin> set [''BB'', ''UD''] then Inl ValueError
      else
        (let sub_dir = upper data_type; d = dirs sub_dir in
         if \<not> dir_exists d then Inl FileNotFoundError
         else
           (case glob d of
              [] \<Rightarrow> Inl FileNotFoundError
            | f # fs \<Rightarrow>
                (let latest_file = max_key (getctime d) f fs in
                 if \<not> isfile d latest_file then Inl FileNotFoundError
                 else if \<not> read_csv_ok d latest_file then Inl ValueError
                 else Inr latest_file))))"

section \<open>The detector as a subprocess of the supervisor\<close>

text \<open>
  The world of the supervisor's subprocesses: the document store as the connection
  attempts of a detector and of a refresher see it, the fingerprint file, the clock and
  the snapshot directory tree. A detector
  subprocess that runs to its end exits with status 0 and leaves its output and the
  file system of \<open>detector_main\<close>.
\<close>

record world =
  store :: mongo
  files :: fs
  refresher_store :: mongo
  clock :: "string \<Rightarrow> string"
  snapshots :: snapshot_fs

definition detector_process :: "world \<Rightarrow> proc_result \<times> world" where
  "detector_process w =
     (case detector_main (store w) (files w) of
        (out, f') \<Rightarrow> (Exited 0 out, w\<lparr>files := f'\<rparr>))"

text \<open>
  A refresher subprocess that runs to its end: it exits with the status of
  \<open>refresher_main\<close> and prints nothing on standard output (its log handlers write to the
  log file and to standard error).
\<close>

definition refresher_process :: "world \<Rightarrow> proc_result \<times> world" where
  "refresher_process w =
     (case refresher_main (refresher_store w) (clock w) (snapshots w) of
        (code, results, s') \<Rightarrow> (Exited code [], w\<lparr>snapshots := s'\<rparr>))"

text \<open>A step of the operating system that leaves the store and the fingerprint file alone.\<close>

definition keeps_fingerprint :: "(world \<Rightarrow> 'r \<times> world) \<Rightarrow> bool" where
  "keeps_fingerprint step = (\<forall>w. store (snd (step w)) = store w \<and> files (snd (step w)) = files w)"

section \<open>Scenarios\<close>

text \<open>A machine on which every detector run times out and the API port is taken.\<close>

definition timeout_os :: "unit os" where
  "timeout_os =
     \<lparr>is_api_server_running = (\<lambda>w. True),
      run_detector = (\<lambda>w. (TimeoutExpired, w)),
      run_refresher = (\<lambda>w. (Exited 1 [], w)),
      popen_api = (\<lambda>w. (0, w)),
      has_exited = (\<lambda>h w. True)\<rparr>"

text \<open>A store that no connection attempt reaches.\<close>

definition unreachable_store :: mongo where
  "unreachable_store = (\<lambda>retry. Inl ConnectionFailure)"

text \<open>A store that is reached at once and whose databases hold no collection.\<close>

definition empty_client :: client where
  "empty_client = (\<lambda>database. \<lparr>list_collection_names = Inr [], documents = (\<lambda>coll. Inr [])\<rparr>)"

definition empty_store :: mongo where
  "empty_store = (\<lambda>retry. Inr empty_client)"

text \<open>A working directory without a fingerprint file, and one that holds a fingerprint.\<close>

definition fresh_fs :: fs where
  "fresh_fs =
     \<lparr>hash_file = None, readable = True, writable = True, fails_after_open = False,
      writes = 0\<rparr>"

definition seeded_fs :: fs where
  "seeded_fs =
     \<lparr>hash_file = Some ''d751713988987e9331980363e24189ce'', readable = True,
      writable = True, fails_after_open = False, writes = 1\<rparr>"


text \<open>
  A machine on which the detector reaches the store and the refresher does not; the API
  port is taken.
\<close>

definition stale_world :: world where
  "stale_world =
     \<lparr>store = empty_store, files = fresh_fs, refresher_store = unreachable_store,
      clock = (\<lambda>db. ''20250101_000000''),
      snapshots = \<lparr>csv_files = [], can_makedirs = True, can_write = True\<rparr>\<rparr>"

definition stale_os :: "world os" where
  "stale_os =
     \<lparr>is_api_server_running = (\<lambda>w. True),
      run_detector = detector_process,
      run_refresher = refresher_process,
      popen_api = (\<lambda>w. (0, w)),
      has_exited = (\<lambda>h w. False)\<rparr>"

text \<open>
  A store in which the first database holds no collection and the second one a
  current collection with one record.
\<close>

definition half_client :: client where
  "half_client =
     (\<lambda>database.
        if database = ''BACHV_UD_STOCKS'' then
          \<lparr>list_collection_names = Inr [''Net_Data_1''],
           documents = (\<lambda>coll. Inr [JDict [(''_id'', JOther), (''a'', JInt 1)]])\<rparr>
        else \<lparr>list_collection_names = Inr [], documents = (\<lambda>coll. Inr [])\<rparr>)"

definition noon :: "string \<Rightarrow> string" where
  "noon = (\<lambda>db. ''20250101_120000'')"

definition empty_snapshots :: snapshot_fs where
  "empty_snapshots = \<lparr>csv_files = [], can_makedirs = True, can_write = True\<rparr>"

text \<open>
  A \<open>BB\<close> directory with three snapshots; the listing does not give them in the order
  of their creation times.
\<close>

definition three_snapshots :: "nat data_dir" where
  "three_snapshots =
     \<lparr>dir_exists = True,
      glob = [''mongodb_data_a.csv'', ''mongodb_data_b.csv'', ''mongodb_data_c.csv''],
      getctime = (\<lambda>f. if f = ''mongodb_data_a.csv'' then 5
                       else if f = ''mongodb_data_b.csv'' then 9 else 7),
      isfile = (\<lambda>f. True),
      read_csv_ok = (\<lambda>f. True)\<rparr>"

text \<open>
  Two views of one store: the current collection of the first database holds the same
  two records, which the cursor returns in one order or in the other. In the second
  view the keys of the first record are also in another order.
\<close>

definition record_one :: json where
  "record_one = JDict [(''a'', JInt 1), (''b'', JStr ''x'')]"

definition record_one_reordered :: json where
  "record_one_reordered = JDict [(''b'', JStr ''x''), (''a'', JInt 1)]"

definition record_two :: json where
  "record_two = JDict [(''a'', JInt 2), (''b'', JStr ''y'')]"

definition client_with :: "json list \<Rightarrow> client" where
  "client_with docs =
     (\<lambda>database.
        if database = ''BACHV_BB_STOCKS'' then
          \<lparr>list_collection_names = Inr [''Net_Data_1''], documents = (\<lambda>coll. Inr docs)\<rparr>
        else \<lparr>list_collection_names = Inr [], documents = (\<lambda>coll. Inr [])\<rparr>)"

definition forward_store :: mongo where
  "forward_store = (\<lambda>retry. Inr (client_with [record_one, record_two]))"

definition backward_store :: mongo where
  "backward_store = (\<lambda>retry. Inr (client_with [record_two, record_one]))"

definition reordered_store :: mongo where
  "reordered_store = (\<lambda>retry. Inr (client_with [record_one_reordered, record_two]))"

section \<open>Properties of the supervisor\<close>

lemma range_max_retries: "[0..<max_retries] = [0, 1, 2]"
  by (simp add: max_retries_def upt_rec)

lemma script_names_distinct:
  "detector_script \<noteq> refresher_script" "detector_script \<noteq> api_script"
  "refresher_script \<noteq> api_script"
  by (simp_all add: detector_script_def refresher_script_def api_script_def)

subsection \<open>The events of the two retry loops\<close>

lemma check_loop_events:
  "set (fst (snd (check_loop spawn rs w)))
     \<subseteq> {Popen detector_script, Kill detector_script, Sleep 2}"
proof (induction rs arbitrary: w)
  case Nil
  then show ?case by simp
next
  case (Cons retry rest)
  obtain r w' where sp: "spawn w = (r, w')" by (cases "spawn w")
  obtain a tr b where rec: "check_loop spawn rest w' = (a, tr, b)"
    by (cases "check_loop spawn rest w'")
  from Cons.IH [of w'] rec have "set tr \<subseteq> {Popen detector_script, Kill detector_script, Sleep 2}"
    by simp
  with sp rec show ?case
    by (cases r) auto
qed

lemma refresh_loop_events:
  "set (fst (snd (refresh_loop spawn rs w)))
     \<subseteq> {Popen refresher_script, Kill refresher_script, Sleep 2}"
proof (induction rs arbitrary: w)
  case Nil
  then show ?case by simp
next
  case (Cons retry rest)
  obtain r w' where sp: "spawn w = (r, w')" by (cases "spawn w")
  obtain a tr b where rec: "refresh_loop spawn rest w' = (a, tr, b)"
    by (cases "refresh_loop spawn rest w'")
  from Cons.IH [of w'] rec
  have "set tr \<subseteq> {Popen refresher_script, Kill refresher_script, Sleep 2}"
    by simp
  with sp rec show ?case
    by (cases r) auto
qed

lemma check_events:
  "set (fst (snd (check_mongodb_changes spawn w)))
     \<subseteq> {Popen detector_script, Kill detector_script, Sleep 2}"
  unfolding check_mongodb_changes_def by (rule check_loop_events)

lemma refresh_events:
  "set (fst (snd (run_get_mongo_data spawn w)))
     \<subseteq> {Popen refresher_script, Kill refresher_script, Sleep 2}"
  unfolding run_get_mongo_data_def by (rule refresh_loop_events)

lemma restart_api_events: "set (fst (snd (restart_api sys ap w))) \<subseteq> {Popen api_script}"
  by (simp add: restart_api_def split: option.split prod.split)

subsection \<open>Three attempts, then no change\<close>

lemma check_loop_no_verdict_last:
  assumes "no_verdict (fst (spawn w))"
  shows "fst (check_loop spawn [2] w) = Some False
    \<and> filter (\<lambda>e. \<not> is_kill e) (fst (snd (check_loop spawn [2] w))) = [Popen detector_script]"
  using assms
  by (cases "spawn w"; cases "fst (spawn w)") (auto simp: max_retries_def)

lemma check_loop_retry:
  assumes "no_verdict (fst (spawn w))" "retry < 2"
  shows "fst (check_loop spawn (retry # rest) w) = fst (check_loop spawn rest (snd (spawn w)))
    \<and> filter (\<lambda>e. \<not> is_kill e) (fst (snd (check_loop spawn (retry # rest) w))) =
        [Popen detector_script, Sleep 2]
          @ filter (\<lambda>e. \<not> is_kill e) (fst (snd (check_loop spawn rest (snd (spawn w)))))"
  using assms
  by (cases "spawn w"; cases "fst (spawn w)") (auto simp: max_retries_def split: prod.splits)

lemma check_without_verdict:
  assumes "\<forall>w. no_verdict (fst (spawn w))"
  shows "fst (check_mongodb_changes spawn w) = Some False
    \<and> filter (\<lambda>e. \<not> is_kill e) (fst (snd (check_mongodb_changes spawn w))) =
        [Popen detector_script, Sleep 2, Popen detector_script, Sleep 2, Popen detector_script]"
proof -
  let ?w1 = "snd (spawn w)"
  let ?w2 = "snd (spawn ?w1)"
  have s0: "no_verdict (fst (spawn w))" and s1: "no_verdict (fst (spawn ?w1))"
    and s2: "no_verdict (fst (spawn ?w2))"
    using assms by blast+
  have a: "fst (check_loop spawn [0, 1, 2] w) = fst (check_loop spawn [1, 2] ?w1)
    \<and> filter (\<lambda>e. \<not> is_kill e) (fst (snd (check_loop spawn [0, 1, 2] w))) =
        [Popen detector_script, Sleep 2]
          @ filter (\<lambda>e. \<not> is_kill e) (fst (snd (check_loop spawn [1, 2] ?w1)))"
    using s0 by (intro check_loop_retry) simp_all
  have b: "fst (check_loop spawn [1, 2] ?w1) = fst (check_loop spawn [2] ?w2)
    \<and> filter (\<lambda>e. \<not> is_kill e) (fst (snd (check_loop spawn [1, 2] ?w1))) =
        [Popen detector_script, Sleep 2]
          @ filter (\<lambda>e. \<not> is_kill e) (fst (snd (check_loop spawn [2] ?w2)))"
    using s1 by (intro check_loop_retry) simp_all
  note c = check_loop_no_verdict_last [of spawn ?w2, OF s2]
  show ?thesis
    unfolding check_mongodb_changes_def range_max_retries
    using a b c by simp
qed

lemma iteration_without_verdict:
  assumes "\<forall>w. no_verdict (fst (run_detector sys w))"
  shows "Popen refresher_script \<notin> set (fst (snd (iteration sys t ap w)))"
proof -
  obtain ap' tr1 w1 where pre: "restart_api sys ap w = (ap', tr1, w1)"
    using prod_cases3 by blast
  have tr1: "set tr1 \<subseteq> {Popen api_script}"
    using restart_api_events [of sys ap w] pre by simp
  obtain c tr2 w2 where chk: "check_mongodb_changes (run_detector sys) w1 = (c, tr2, w2)"
    using prod_cases3 by blast
  have "c = Some False"
    using check_without_verdict [OF assms, of w1] chk by simp
  then have it: "fst (snd (iteration sys t ap w)) = [Sleep t] @ tr1 @ tr2"
    using pre chk by (simp add: iteration_def truthy_def)
  have tr2: "set tr2 \<subseteq> {Popen detector_script, Kill detector_script, Sleep 2}"
    using check_events [of "run_detector sys" w1] chk by simp
  have "Popen refresher_script \<notin> set tr1"
    using tr1 script_names_distinct by auto
  moreover have "Popen refresher_script \<notin> set tr2"
    using tr2 script_names_distinct by auto
  ultimately show ?thesis
    unfolding it by simp
qed

text \<open>
  Claim C4. When every run of the detector subprocess ends in a timeout or prints
  neither \<open>YES_CHANGED\<close> nor \<open>NO_CHANGED\<close> (the \<open>ERROR\<close> token or anything else), the
  check step starts the detector exactly three times, sleeps two seconds between the
  attempts, and returns \<open>False\<close>; the loop pass it belongs to starts no refresher. The
  check step is a total function, so it always returns.
\<close>

theorem check_gives_up_after_three_attempts:
  assumes "\<forall>w. no_verdict (fst (run_detector sys w))"
  shows "fst (check_mongodb_changes (run_detector sys) w) = Some False
    \<and> filter (\<lambda>e. \<not> is_kill e) (fst (snd (check_mongodb_changes (run_detector sys) w))) =
        [Popen detector_script, Sleep 2, Popen detector_script, Sleep 2, Popen detector_script]
    \<and> Popen refresher_script \<notin> set (fst (snd (iteration sys t ap w)))"
  using check_without_verdict [OF assms] iteration_without_verdict [OF assms] by simp

theorem check_gives_up_after_three_attempts_witness:
  "no_verdict (fst (run_detector timeout_os ()))
   \<and> check_mongodb_changes (run_detector timeout_os) () =
     (Some False,
      [Popen detector_script, Kill detector_script, Sleep 2,
       Popen detector_script, Kill detector_script, Sleep 2,
       Popen detector_script, Kill detector_script], ())
   \<and> Popen refresher_script \<notin> set (fst (snd (iteration timeout_os 7200 None ())))"
proof -
  have h: "\<forall>w. no_verdict (fst (run_detector timeout_os w))"
    by (simp add: timeout_os_def)
  have "check_loop (run_detector timeout_os) [0, 1, 2] () =
     (Some False,
      [Popen detector_script, Kill detector_script, Sleep 2,
       Popen detector_script, Kill detector_script, Sleep 2,
       Popen detector_script, Kill detector_script], ())"
    by (simp add: max_retries_def timeout_os_def)
  then show ?thesis
    using check_gives_up_after_three_attempts [OF h, of "()" 7200 None]
    unfolding check_mongodb_changes_def range_max_retries by (simp add: timeout_os_def)
qed

subsection \<open>An adopted API server\<close>

lemma iteration_no_handle:
  "fst (iteration sys t None w) = None
   \<and> Popen api_script \<notin> set (fst (snd (iteration sys t None w)))
   \<and> Terminate api_script \<notin> set (fst (snd (iteration sys t None w)))"
proof -
  obtain c tr2 w2 where chk: "check_mongodb_changes (run_detector sys) w = (c, tr2, w2)"
    using prod_cases3 by blast
  obtain d tr3 w3 where rf: "run_get_mongo_data (run_refresher sys) w2 = (d, tr3, w3)"
    using prod_cases3 by blast
  have tr2: "set tr2 \<subseteq> {Popen detector_script, Kill detector_script, Sleep 2}"
    using check_events [of "run_detector sys" w] chk by simp
  have tr3: "set tr3 \<subseteq> {Popen refresher_script, Kill refresher_script, Sleep 2}"
    using refresh_events [of "run_refresher sys" w2] rf by simp
  have a2: "Popen api_script \<notin> set tr2" "Terminate api_script \<notin> set tr2"
    using tr2 script_names_distinct by auto
  have a3: "Popen api_script \<notin> set tr3" "Terminate api_script \<notin> set tr3"
    using tr3 script_names_distinct by auto
  show ?thesis
    using chk rf a2 a3 by (simp add: iteration_def restart_api_def)
qed

lemma main_loop_no_handle:
  "fst (main_loop sys t n None w) = None
   \<and> Popen api_script \<notin> set (fst (snd (main_loop sys t n None w)))
   \<and> Terminate api_script \<notin> set (fst (snd (main_loop sys t n None w)))"
proof (induction n arbitrary: w)
  case 0
  then show ?case by simp
next
  case (Suc n)
  obtain ap tr w' where it: "iteration sys t None w = (ap, tr, w')"
    using prod_cases3 by blast
  with iteration_no_handle [of sys t w]
  have ap: "ap = None" and tr: "Popen api_script \<notin> set tr" "Terminate api_script \<notin> set tr"
    by simp_all
  obtain ap'' tr' w'' where ml: "main_loop sys t n None w' = (ap'', tr', w'')"
    using prod_cases3 by blast
  with Suc.IH [of w'] have "ap'' = None" "Popen api_script \<notin> set tr'"
    "Terminate api_script \<notin> set tr'"
    by simp_all
  with it ap tr ml show ?case by simp
qed

text \<open>
  Claim C10. When the startup probe finds the port taken, \<open>main\<close> enters the loop with
  \<open>api_process = None\<close>; the handle is still \<open>None\<close> after any number of passes, whatever
  \<open>poll\<close> would say, and the whole run, with either handler at its end, neither starts
  nor terminates \<open>API.py\<close>.
\<close>

theorem adopted_api_never_managed:
  assumes "is_api_server_running sys w"
  shows "fst (main_loop sys t n None w) = None
    \<and> fst (main sys t n ending w) = fst (snd (main_loop sys t n None w))
    \<and> Popen api_script \<notin> set (fst (main sys t n ending w))
    \<and> Terminate api_script \<notin> set (fst (main sys t n ending w))"
proof -
  obtain ap tr w' where ml: "main_loop sys t n None w = (ap, tr, w')"
    using prod_cases3 by blast
  with main_loop_no_handle [of sys t n w]
  have "ap = None" "Popen api_script \<notin> set tr" "Terminate api_script \<notin> set tr"
    by simp_all
  with assms ml show ?thesis by (cases ending) (simp_all add: main_def)
qed

theorem adopted_api_never_managed_witness:
  "is_api_server_running timeout_os ()
   \<and> fst (main_loop timeout_os 7200 2 None ()) = None
   \<and> Popen api_script \<notin> set (fst (main timeout_os 7200 2 KeyboardInterrupt ()))
   \<and> Terminate api_script \<notin> set (fst (main timeout_os 7200 2 KeyboardInterrupt ()))"
proof -
  have h: "is_api_server_running timeout_os ()"
    by (simp add: timeout_os_def)
  show ?thesis
    using h adopted_api_never_managed [OF h, of 7200 2 KeyboardInterrupt] by blast
qed

section \<open>Properties of the change detector\<close>

subsection \<open>The digest holds no white space\<close>

lemma md5_of_empty_list: "md5_hexdigest (encode ''[]'') = ''d751713988987e9331980363e24189ce''"
  by code_simp

lemma hex_digit_no_space:
  fixes n :: "8 word"
  assumes "unat n < 16"
  shows "\<not> isspace (hex_digit n)"
proof -
  have "unat n < length ''0123456789abcdef''" using assms by simp
  then have "hex_digit n \<in> set ''0123456789abcdef''"
    unfolding hex_digit_def by (rule nth_mem)
  then show ?thesis
    by (auto simp: isspace_def)
qed

lemma high_nibble: "unat (drop_bit 4 (b :: 8 word)) < 16"
proof -
  have "unat (drop_bit 4 b) = unat b div 2 ^ 4"
    by (simp add: drop_bit_eq_div unat_div_distrib)
  moreover have "unat b < 256" using unsigned_less [of b, where ?'a = nat] by simp
  ultimately show ?thesis by simp
qed

lemma low_nibble: "unat ((b :: 8 word) AND 0x0f) < 16"
proof -
  have "(b AND 0x0f) \<le> 0x0f" by (simp add: word_and_le1)
  then show ?thesis by (simp add: word_le_nat_alt)
qed

lemma hex_byte_no_space: "c \<in> set (hex_byte b) \<Longrightarrow> \<not> isspace c"
  using hex_digit_no_space [OF high_nibble [of b]] hex_digit_no_space [OF low_nibble [of b]]
  by (auto simp: hex_byte_def)

lemma word_hex_no_space: "c \<in> set (word_hex x) \<Longrightarrow> \<not> isspace c"
  unfolding word_hex_def using hex_byte_no_space by auto

lemma md5_hexdigest_no_space: "c \<in> set (md5_hexdigest bs) \<Longrightarrow> \<not> isspace c"
proof -
  assume c: "c \<in> set (md5_hexdigest bs)"
  obtain a b c' d where
    "foldl md5_chunk (0x67452301, 0xefcdab89, 0x98badcfe, 0x10325476) (chunks (md5_pad bs))
       = (a, b, c', d)"
    using prod_cases4 by blast
  then have "md5_hexdigest bs = word_hex a @ word_hex b @ word_hex c' @ word_hex d"
    by (simp add: md5_hexdigest_def)
  with c have "c \<in> set (word_hex a) \<or> c \<in> set (word_hex b) \<or> c \<in> set (word_hex c')
      \<or> c \<in> set (word_hex d)"
    by auto
  then show ?thesis using word_hex_no_space by blast
qed

lemma strip_no_space:
  assumes "\<forall>c \<in> set s. \<not> isspace c"
  shows "strip s = s"
proof -
  have a: "dropWhile isspace s = s"
    using assms by (cases s) auto
  have "\<forall>c \<in> set (rev s). \<not> isspace c" using assms by simp
  then have b: "dropWhile isspace (rev s) = rev s"
    by (cases "rev s") auto
  show ?thesis by (simp add: strip_def a b)
qed

lemma strip_md5_hexdigest: "strip (md5_hexdigest bs) = md5_hexdigest bs"
  using md5_hexdigest_no_space by (intro strip_no_space) blast


subsection \<open>The fingerprint\<close>

lemma hash_of_client_digest: "hash_of_client c = Inr h \<Longrightarrow> \<exists>bs. h = md5_hexdigest bs"
  by (auto simp: hash_of_client_def split: sum.splits)

lemma hash_loop_digest: "hash_loop m rs = Some h \<Longrightarrow> \<exists>bs. h = md5_hexdigest bs"
proof (induction rs)
  case Nil
  then show ?case by simp
next
  case (Cons retry rest)
  then show ?case
    by (auto simp: attempt_hash_def split: sum.splits if_splits dest: hash_of_client_digest)
qed

lemma strip_data_hash: "get_mongodb_data_hash m = Some h \<Longrightarrow> strip h = h"
  unfolding get_mongodb_data_hash_def
  using hash_loop_digest [of m "[0..<max_retries]" h] strip_md5_hexdigest by auto

lemma unreachable_no_hash:
  assumes "\<forall>retry < max_retries. isl (m retry)"
  shows "get_mongodb_data_hash m = None"
proof -
  have "isl (m 0)" "isl (m 1)" "isl (m 2)"
    using assms by (simp_all add: max_retries_def)
  then show ?thesis
    unfolding get_mongodb_data_hash_def range_max_retries
    by (auto simp: attempt_hash_def max_retries_def isl_def)
qed

lemma hash_of_empty_store:
  "get_mongodb_data_hash empty_store = Some ''d751713988987e9331980363e24189ce''"
proof -
  have "collect_all_data empty_client DATABASES = Inr []"
    by (simp add: DATABASES_def get_latest_collection_def empty_client_def latest_of_def)
  then have "hash_of_client empty_client = Inr (md5_hexdigest (encode ''[]''))"
    by (simp add: hash_of_client_def json_dumps_def)
  then show ?thesis
    unfolding get_mongodb_data_hash_def range_max_retries
    by (simp add: attempt_hash_def empty_store_def md5_of_empty_list)
qed

subsection \<open>The detector's output\<close>

lemma detector_main_cases:
  "fst (detector_main m f) = ''YES_CHANGED'' @ [CHR 0x0A] \<and> fst (has_data_changed m f) = Inr True
   \<or> fst (detector_main m f) = ''NO_CHANGED'' @ [CHR 0x0A] \<and> fst (has_data_changed m f) = Inr False
   \<or> fst (detector_main m f) = ''ERROR'' @ [CHR 0x0A] \<and> isl (fst (has_data_changed m f))"
  by (cases "has_data_changed m f"; cases "fst (has_data_changed m f)")
    (auto simp: detector_main_def)

text \<open>
  Claim C1, as the code has it. When no connection attempt reaches the store,
  \<open>get_mongodb_data_hash\<close> returns \<open>None\<close>, \<open>has_data_changed\<close> returns \<open>False\<close>, and the
  detector prints \<open>NO_CHANGED\<close> and leaves the fingerprint file as it was. Whatever
  the store and the file system, the output is one of the three tokens, it is \<open>ERROR\<close>
  exactly when an exception leaves \<open>has_data_changed\<close>, and it holds exactly one of
  the three words the supervisor looks for.
\<close>

theorem detector_emits_one_token:
  assumes "\<forall>retry < max_retries. isl (m retry)"
  shows "detector_main m f = (''NO_CHANGED'' @ [CHR 0x0A], f)
    \<and> fst (detector_main m' f')
        \<in> {''YES_CHANGED'' @ [CHR 0x0A], ''NO_CHANGED'' @ [CHR 0x0A], ''ERROR'' @ [CHR 0x0A]}
    \<and> (fst (detector_main m' f') = ''ERROR'' @ [CHR 0x0A]) = isl (fst (has_data_changed m' f'))
    \<and> (contains ''YES_CHANGED'' (fst (detector_main m' f')),
        contains ''NO_CHANGED'' (fst (detector_main m' f')),
        contains ''ERROR'' (fst (detector_main m' f')))
        \<in> {(True, False, False), (False, True, False), (False, False, True)}"
proof -
  have a: "detector_main m f = (''NO_CHANGED'' @ [CHR 0x0A], f)"
    using unreachable_no_hash [OF assms] by (simp add: detector_main_def has_data_changed_def)
  from detector_main_cases [of m' f'] show ?thesis
  proof (elim disjE conjE)
    assume "fst (detector_main m' f') = ''YES_CHANGED'' @ [CHR 0x0A]"
      "fst (has_data_changed m' f') = Inr True"
    then show ?thesis using a by simp
  next
    assume "fst (detector_main m' f') = ''NO_CHANGED'' @ [CHR 0x0A]"
      "fst (has_data_changed m' f') = Inr False"
    then show ?thesis using a by simp
  next
    assume "fst (detector_main m' f') = ''ERROR'' @ [CHR 0x0A]"
      "isl (fst (has_data_changed m' f'))"
    then show ?thesis using a by simp
  qed
qed

theorem detector_emits_one_token_witness:
  "isl (unreachable_store 0) \<and> isl (unreachable_store 1) \<and> isl (unreachable_store 2)
   \<and> detector_main unreachable_store seeded_fs = (''NO_CHANGED'' @ [CHR 0x0A], seeded_fs)"
proof -
  have h: "\<forall>retry < max_retries. isl (unreachable_store retry)"
    by (simp add: unreachable_store_def)
  show ?thesis
    using detector_emits_one_token [OF h, of seeded_fs] by (simp add: unreachable_store_def)
qed

text \<open>
  The claim as written fails: with the store unreachable on all three attempts the
  detector prints \<open>NO_CHANGED\<close>, not \<open>ERROR\<close>.
\<close>

theorem unreachable_store_prints_no_changed:
  "isl (unreachable_store 0) \<and> isl (unreachable_store 1) \<and> isl (unreachable_store 2)
   \<and> fst (detector_main unreachable_store fresh_fs) = ''NO_CHANGED'' @ [CHR 0x0A]
   \<and> fst (detector_main unreachable_store fresh_fs) \<noteq> ''ERROR'' @ [CHR 0x0A]"
  unfolding detector_main_def has_data_changed_def get_mongodb_data_hash_def range_max_retries
  by (simp add: attempt_hash_def unreachable_store_def max_retries_def)

subsection \<open>First run and the write of the fingerprint file\<close>

lemma detector_first_run:
  assumes "hash_file f = None" "get_mongodb_data_hash m = Some h" "writable f"
  shows "detector_main m f =
    (''YES_CHANGED'' @ [CHR 0x0A], f\<lparr>hash_file := Some h, writes := writes f + 1\<rparr>)"
  using assms by (simp add: detector_main_def has_data_changed_def write_hash_file_def)

lemma detector_same_hash:
  assumes "hash_file f = Some h" "get_mongodb_data_hash m = Some h" "readable f"
  shows "detector_main m f = (''NO_CHANGED'' @ [CHR 0x0A], f)"
  using assms strip_data_hash [OF assms(2)]
  by (simp add: detector_main_def has_data_changed_def read_hash_file_def)

text \<open>
  Claim C3. Without a fingerprint file and with a computed fingerprint \<open>h\<close>, the
  detector prints \<open>YES_CHANGED\<close> and leaves a file that holds \<open>h\<close>; a second run that
  computes the same fingerprint prints \<open>NO_CHANGED\<close> and leaves the file system as it
  is. The file system is one that lets the detector read and write the file.
\<close>

theorem first_run_changed_then_unchanged:
  assumes "hash_file f = None" "get_mongodb_data_hash m = Some h" "writable f" "readable f"
    "get_mongodb_data_hash m2 = Some h"
  shows "fst (detector_main m f) = ''YES_CHANGED'' @ [CHR 0x0A]
    \<and> hash_file (snd (detector_main m f)) = Some h
    \<and> detector_main m2 (snd (detector_main m f)) =
        (''NO_CHANGED'' @ [CHR 0x0A], snd (detector_main m f))"
proof -
  let ?f1 = "f\<lparr>hash_file := Some h, writes := writes f + 1\<rparr>"
  have a: "detector_main m f = (''YES_CHANGED'' @ [CHR 0x0A], ?f1)"
    using assms(1-3) by (rule detector_first_run)
  have "detector_main m2 ?f1 = (''NO_CHANGED'' @ [CHR 0x0A], ?f1)"
    using assms(4,5) by (intro detector_same_hash) simp_all
  with a show ?thesis by simp
qed

theorem first_run_changed_then_unchanged_witness:
  "hash_file fresh_fs = None
   \<and> get_mongodb_data_hash empty_store = Some ''d751713988987e9331980363e24189ce''
   \<and> writable fresh_fs \<and> readable fresh_fs
   \<and> detector_main empty_store fresh_fs = (''YES_CHANGED'' @ [CHR 0x0A], seeded_fs)
   \<and> detector_main empty_store seeded_fs = (''NO_CHANGED'' @ [CHR 0x0A], seeded_fs)"
proof -
  have h: "hash_file fresh_fs = None" "writable fresh_fs" "readable fresh_fs"
    by (simp_all add: fresh_fs_def)
  have d: "detector_main empty_store fresh_fs = (''YES_CHANGED'' @ [CHR 0x0A], seeded_fs)"
    using detector_first_run [OF h(1) hash_of_empty_store h(2)]
    by (simp add: fresh_fs_def seeded_fs_def)
  show ?thesis
    using first_run_changed_then_unchanged
      [OF h(1) hash_of_empty_store h(2) h(3) hash_of_empty_store]
      h d hash_of_empty_store
    by simp
qed






section \<open>Properties of the detector under the supervisor\<close>

subsection \<open>A change whose refresh failed\<close>

lemma detector_changed_writes:
  "fst (detector_main m f) = ''YES_CHANGED'' @ [CHR 0x0A] \<Longrightarrow>
     \<exists>h. get_mongodb_data_hash m = Some h \<and> hash_file (snd (detector_main m f)) = Some h
       \<and> readable (snd (detector_main m f)) = readable f"
  by (auto simp: detector_main_def has_data_changed_def write_hash_file_def read_hash_file_def
      Let_def split: option.splits sum.splits if_splits)

text \<open>
  A run that does not print \<open>YES_CHANGED\<close> leaves the file system as it was or has
  failed to write; the faults stay, so the next run does not print \<open>YES_CHANGED\<close>
  either.
\<close>

lemma detector_quiet_cases:
  "fst (detector_main m f) \<noteq> ''YES_CHANGED'' @ [CHR 0x0A] \<Longrightarrow>
     snd (detector_main m f) = f
     \<or> (\<not> writable f \<and> \<not> writable (snd (detector_main m f)))"
  by (auto simp: detector_main_def has_data_changed_def write_hash_file_def read_hash_file_def
      Let_def split: option.splits sum.splits if_splits)

lemma detector_changed_writable:
  "fst (detector_main m f) = ''YES_CHANGED'' @ [CHR 0x0A] \<Longrightarrow> writable f"
  by (auto simp: detector_main_def has_data_changed_def write_hash_file_def read_hash_file_def
      Let_def split: option.splits sum.splits if_splits)

lemma detector_quiet_again:
  assumes "fst (detector_main m f) \<noteq> ''YES_CHANGED'' @ [CHR 0x0A]"
  shows "fst (detector_main m (snd (detector_main m f))) \<noteq> ''YES_CHANGED'' @ [CHR 0x0A]"
  using detector_quiet_cases [OF assms] assms
    detector_changed_writable [of m "snd (detector_main m f)"]
  by auto

lemma detector_process_run:
  "detector_process w =
     (Exited 0 (fst (detector_main (store w) (files w))),
      w\<lparr>files := snd (detector_main (store w) (files w))\<rparr>)"
  by (cases "detector_main (store w) (files w)") (simp add: detector_process_def)

lemma check_loop_detector_unchanged:
  assumes "fst (detector_main (store w) (files w)) \<noteq> ''YES_CHANGED'' @ [CHR 0x0A]"
  shows "fst (check_loop detector_process rs w) \<noteq> Some True"
  using assms
proof (induction rs arbitrary: w)
  case Nil
  then show ?case by simp
next
  case (Cons retry rest)
  let ?w' = "w\<lparr>files := snd (detector_main (store w) (files w))\<rparr>"
  have q: "fst (detector_main (store ?w') (files ?w')) \<noteq> ''YES_CHANGED'' @ [CHR 0x0A]"
    using detector_quiet_again [OF Cons.prems] by simp
  have rec: "fst (check_loop detector_process rest ?w') \<noteq> Some True"
    using q by (rule Cons.IH)
  from detector_main_cases [of "store w" "files w"] Cons.prems
  consider "fst (detector_main (store w) (files w)) = ''NO_CHANGED'' @ [CHR 0x0A]"
    | "fst (detector_main (store w) (files w)) = ''ERROR'' @ [CHR 0x0A]"
    by blast
  then show ?case
  proof cases
    case 1
    then show ?thesis using detector_process_run [of w] by simp
  next
    case 2
    obtain r tr w'' where l: "check_loop detector_process rest ?w' = (r, tr, w'')"
      using prod_cases3 by blast
    with rec have "r \<noteq> Some True" by simp
    with 2 l show ?thesis using detector_process_run [of w] by simp
  qed
qed

lemma check_detector_unchanged:
  assumes "fst (detector_main (store w) (files w)) \<noteq> ''YES_CHANGED'' @ [CHR 0x0A]"
  shows "fst (check_mongodb_changes detector_process w) \<noteq> Some True"
  unfolding check_mongodb_changes_def using assms by (rule check_loop_detector_unchanged)

lemma check_detector_changed:
  assumes "fst (check_mongodb_changes detector_process w) = Some True"
  shows "fst (detector_main (store w) (files w)) = ''YES_CHANGED'' @ [CHR 0x0A]
    \<and> snd (snd (check_mongodb_changes detector_process w)) =
        w\<lparr>files := snd (detector_main (store w) (files w))\<rparr>"
proof -
  have y: "fst (detector_main (store w) (files w)) = ''YES_CHANGED'' @ [CHR 0x0A]"
    using assms check_detector_unchanged [of w] by auto
  then show ?thesis
    unfolding check_mongodb_changes_def range_max_retries
    using detector_process_run [of w] by simp
qed

lemma refresh_loop_keeps_fingerprint:
  assumes "keeps_fingerprint step"
  shows "store (snd (snd (refresh_loop step rs w))) = store w
    \<and> files (snd (snd (refresh_loop step rs w))) = files w"
proof (induction rs arbitrary: w)
  case Nil
  then show ?case by simp
next
  case (Cons retry rest)
  obtain r w' where sp: "step w = (r, w')" by (cases "step w")
  with assms have k: "store w' = store w" "files w' = files w"
    unfolding keeps_fingerprint_def by (metis snd_conv)+
  obtain a tr b where rec: "refresh_loop step rest w' = (a, tr, b)"
    using prod_cases3 by blast
  with Cons.IH [of w'] k have "store b = store w" "files b = files w" by simp_all
  with sp rec k show ?case
    by (cases r) auto
qed

lemma refresher_process_keeps_fingerprint: "keeps_fingerprint refresher_process"
  unfolding keeps_fingerprint_def refresher_process_def
  by (auto split: prod.splits)


lemma restart_api_keeps_fingerprint:
  assumes "keeps_fingerprint (popen_api sys)"
  shows "store (snd (snd (restart_api sys ap w))) = store w
    \<and> files (snd (snd (restart_api sys ap w))) = files w"
proof (cases ap)
  case None
  then show ?thesis by (simp add: restart_api_def)
next
  case (Some h)
  obtain h' w1 where p: "popen_api sys w = (h', w1)" by (cases "popen_api sys w")
  with assms have "store w1 = store w" "files w1 = files w"
    unfolding keeps_fingerprint_def by (metis snd_conv)+
  with Some p show ?thesis by (simp add: restart_api_def)
qed

lemma iteration_same_fingerprint:
  assumes det: "run_detector sys = detector_process"
    and api: "keeps_fingerprint (popen_api sys)"
    and same: "fst (detector_main (store w) (files w)) \<noteq> ''YES_CHANGED'' @ [CHR 0x0A]"
  shows "Popen refresher_script \<notin> set (fst (snd (iteration sys t ap w)))"
proof -
  obtain ap' tr1 w1 where pre: "restart_api sys ap w = (ap', tr1, w1)"
    using prod_cases3 by blast
  have tr1: "set tr1 \<subseteq> {Popen api_script}"
    using restart_api_events [of sys ap w] pre by simp
  have k: "store w1 = store w" "files w1 = files w"
    using restart_api_keeps_fingerprint [OF api, of ap w] pre by simp_all
  obtain c tr2 w2 where chk: "check_mongodb_changes detector_process w1 = (c, tr2, w2)"
    using prod_cases3 by blast
  have "c \<noteq> Some True"
    using check_detector_unchanged [of w1] same k chk by simp
  then have it: "fst (snd (iteration sys t ap w)) = [Sleep t] @ tr1 @ tr2"
    using pre chk det by (simp add: iteration_def truthy_def)
  have tr2: "set tr2 \<subseteq> {Popen detector_script, Kill detector_script, Sleep 2}"
    using check_events [of detector_process w1] chk by simp
  have "Popen refresher_script \<notin> set tr1"
    using tr1 script_names_distinct by auto
  moreover have "Popen refresher_script \<notin> set tr2"
    using tr2 script_names_distinct by auto
  ultimately show ?thesis
    unfolding it by simp
qed

text \<open>
  Claim C9. In a loop pass whose check step returned \<open>True\<close> and whose refresh did not
  succeed, the fingerprint file holds the fingerprint the detector computed: neither
  the refresher nor the supervisor writes it back. A later detector run over the same
  store then prints \<open>NO_CHANGED\<close>, and the next loop pass starts no refresher. The
  detector subprocess is the one of \<open>detector_process\<close>; the refresher and the start of
  the API server are any steps that leave the store and the fingerprint file alone, as
  \<open>refresher_process\<close> does.
\<close>

theorem missed_change_not_retriggered:
  assumes det: "run_detector sys = detector_process"
    and rfr: "keeps_fingerprint (run_refresher sys)"
    and api: "keeps_fingerprint (popen_api sys)"
    and rd: "readable (files w)"
    and chk: "check_mongodb_changes (run_detector sys) w = (Some True, tr, w1)"
    and ref: "run_get_mongo_data (run_refresher sys) w1 = (r, tr', w2)"
    and failed: "r \<noteq> Some True"
  shows "store w2 = store w
    \<and> hash_file (files w2) = get_mongodb_data_hash (store w)
    \<and> hash_file (files w2) \<noteq> None
    \<and> fst (detector_main (store w2) (files w2)) = ''NO_CHANGED'' @ [CHR 0x0A]
    \<and> Popen refresher_script \<notin> set (fst (snd (iteration sys t ap w2)))"
proof -
  let ?f1 = "snd (detector_main (store w) (files w))"
  have c: "fst (detector_main (store w) (files w)) = ''YES_CHANGED'' @ [CHR 0x0A]"
    "w1 = w\<lparr>files := ?f1\<rparr>"
    using check_detector_changed [of w] chk det by simp_all
  obtain h where h: "get_mongodb_data_hash (store w) = Some h" "hash_file ?f1 = Some h"
    "readable ?f1 = readable (files w)"
    using detector_changed_writes [OF c(1)] by blast
  have k: "store w2 = store w1" "files w2 = files w1"
    using refresh_loop_keeps_fingerprint [OF rfr, of "[0..<max_retries]" w1] ref
    by (simp_all add: run_get_mongo_data_def)
  have s: "store w2 = store w" "files w2 = ?f1"
    using k c(2) by simp_all
  have n: "detector_main (store w2) (files w2) = (''NO_CHANGED'' @ [CHR 0x0A], files w2)"
    using h rd s by (intro detector_same_hash [of _ h]) simp_all
  then have q: "fst (detector_main (store w2) (files w2)) \<noteq> ''YES_CHANGED'' @ [CHR 0x0A]"
    by simp
  show ?thesis
    using s h n iteration_same_fingerprint [OF det api q] by simp
qed

lemma stale_world_check:
  "check_mongodb_changes detector_process stale_world =
     (Some True, [Popen detector_script], stale_world\<lparr>files := seeded_fs\<rparr>)"
proof -
  have h: "hash_file fresh_fs = None" "writable fresh_fs"
    by (simp_all add: fresh_fs_def)
  have "detector_main empty_store fresh_fs = (''YES_CHANGED'' @ [CHR 0x0A], seeded_fs)"
    using detector_first_run [OF h(1) hash_of_empty_store h(2)]
    by (simp add: fresh_fs_def seeded_fs_def)
  then have "detector_process stale_world =
      (Exited 0 (''YES_CHANGED'' @ [CHR 0x0A]), stale_world\<lparr>files := seeded_fs\<rparr>)"
    by (simp add: detector_process_def stale_world_def)
  then show ?thesis
    unfolding check_mongodb_changes_def range_max_retries by simp
qed

lemma stale_world_refresh:
  "run_get_mongo_data refresher_process (stale_world\<lparr>files := seeded_fs\<rparr>) =
     (Some False,
      [Popen refresher_script, Sleep 2, Popen refresher_script, Sleep 2,
       Popen refresher_script],
      stale_world\<lparr>files := seeded_fs\<rparr>)"
proof -
  have "NetworkDataFetch unreachable_store = Inl (ApiPredictionException ConnectionFailure)"
    unfolding NetworkDataFetch_def range_max_retries
    by (simp add: unreachable_store_def max_retries_def)
  then have "refresher_process (stale_world\<lparr>files := seeded_fs\<rparr>) =
      (Exited 1 [], stale_world\<lparr>files := seeded_fs\<rparr>)"
    by (simp add: refresher_process_def refresher_main_def stale_world_def)
  then show ?thesis
    unfolding run_get_mongo_data_def range_max_retries by (simp add: max_retries_def)
qed

theorem missed_change_not_retriggered_witness:
  "run_detector stale_os = detector_process
   \<and> keeps_fingerprint (run_refresher stale_os)
   \<and> keeps_fingerprint (popen_api stale_os)
   \<and> readable (files stale_world)
   \<and> fst (check_mongodb_changes (run_detector stale_os) stale_world) = Some True
   \<and> fst (run_get_mongo_data (run_refresher stale_os) (stale_world\<lparr>files := seeded_fs\<rparr>))
       = Some False
   \<and> hash_file (files (stale_world\<lparr>files := seeded_fs\<rparr>)) = get_mongodb_data_hash empty_store
   \<and> fst (detector_main empty_store seeded_fs) = ''NO_CHANGED'' @ [CHR 0x0A]
   \<and> Popen refresher_script
       \<notin> set (fst (snd (iteration stale_os 7200 None (stale_world\<lparr>files := seeded_fs\<rparr>))))"
proof -
  have det: "run_detector stale_os = detector_process"
    and rfr: "keeps_fingerprint (run_refresher stale_os)"
    and api: "keeps_fingerprint (popen_api stale_os)"
    and rd: "readable (files stale_world)"
    using refresher_process_keeps_fingerprint
    by (simp_all add: stale_os_def keeps_fingerprint_def stale_world_def fresh_fs_def)
  have chk: "check_mongodb_changes (run_detector stale_os) stale_world =
      (Some True, [Popen detector_script], stale_world\<lparr>files := seeded_fs\<rparr>)"
    using stale_world_check det by simp
  have ref: "run_get_mongo_data (run_refresher stale_os) (stale_world\<lparr>files := seeded_fs\<rparr>) =
      (Some False,
       [Popen refresher_script, Sleep 2, Popen refresher_script, Sleep 2,
        Popen refresher_script],
       stale_world\<lparr>files := seeded_fs\<rparr>)"
    using stale_world_refresh by (simp add: stale_os_def)
  have f: "Some False \<noteq> Some True" by simp
  show ?thesis
    using missed_change_not_retriggered [OF det rfr api rd chk ref f, of 7200 None]
      det rfr api rd chk ref
    by (simp add: stale_world_def)
qed

section \<open>Properties of the data refresher\<close>

subsection \<open>One database at a time\<close>

lemma fetch_and_save_data_flags:
  "can_makedirs (snd (fetch_and_save_data c t db s)) = can_makedirs s
   \<and> can_write (snd (fetch_and_save_data c t db s)) = can_write s
   \<and> set (csv_files s) \<subseteq> set (csv_files (snd (fetch_and_save_data c t db s)))"
  by (auto simp: fetch_and_save_data_def save_to_csv_def split: sum.splits option.splits)

lemma fetch_and_save_data_result:
  assumes "can_makedirs s' = can_makedirs s" "can_write s' = can_write s"
  shows "fst (fetch_and_save_data c t db s') = fst (fetch_and_save_data c t db s)"
  using assms
  by (auto simp: fetch_and_save_data_def save_to_csv_def split: sum.splits option.splits)

lemma process_databases_results:
  "fst (process_databases c clk dbs s) =
     map (\<lambda>d. (d, fst (fetch_and_save_data c (clk d) d s))) dbs"
proof (induction dbs arbitrary: s)
  case Nil
  then show ?case by simp
next
  case (Cons db rest)
  obtain r s' where f: "fetch_and_save_data c (clk db) db s = (r, s')"
    by (cases "fetch_and_save_data c (clk db) db s")
  then have fl: "can_makedirs s' = can_makedirs s" "can_write s' = can_write s"
    using fetch_and_save_data_flags [of c "clk db" db s] by simp_all
  obtain rs s'' where p: "process_databases c clk rest s' = (rs, s'')"
    by (cases "process_databases c clk rest s'")
  have "rs = map (\<lambda>d. (d, fst (fetch_and_save_data c (clk d) d s'))) rest"
    using Cons.IH [of s'] p by simp
  also have "\<dots> = map (\<lambda>d. (d, fst (fetch_and_save_data c (clk d) d s))) rest"
    using fetch_and_save_data_result [OF fl] by simp
  finally show ?case using f p by simp
qed

lemma process_databases_flags:
  "can_makedirs (snd (process_databases c clk dbs s)) = can_makedirs s
   \<and> can_write (snd (process_databases c clk dbs s)) = can_write s
   \<and> set (csv_files s) \<subseteq> set (csv_files (snd (process_databases c clk dbs s)))"
proof (induction dbs arbitrary: s)
  case Nil
  then show ?case by simp
next
  case (Cons db rest)
  obtain r s' where f: "fetch_and_save_data c (clk db) db s = (r, s')"
    by (cases "fetch_and_save_data c (clk db) db s")
  obtain rs s'' where p: "process_databases c clk rest s' = (rs, s'')"
    by (cases "process_databases c clk rest s'")
  show ?case
    using fetch_and_save_data_flags [of c "clk db" db s] Cons.IH [of s'] f p by auto
qed

lemma fetch_and_save_data_saved:
  assumes "list_collection_names (c db) = Inr names" "latest_of names = Some coll"
    "documents (c db) coll = Inr docs" "docs \<noteq> []" "can_makedirs s" "can_write s"
  shows "fetch_and_save_data c t db s =
    (Inr (Some (output_file_of db t)),
     s\<lparr>csv_files := (output_file_of db t, map drop_id docs) # csv_files s\<rparr>)"
  using assms
  by (simp add: fetch_and_save_data_def get_latest_collection_r_def
      fetch_data_from_mongodb_def find_def save_to_csv_def)

lemma process_databases_written:
  assumes "db \<in> set dbs" "list_collection_names (c db) = Inr names"
    "latest_of names = Some coll" "documents (c db) coll = Inr docs" "docs \<noteq> []"
    "can_makedirs s" "can_write s"
  shows "(output_file_of db (clk db), map drop_id docs)
    \<in> set (csv_files (snd (process_databases c clk dbs s)))"
  using assms(1,6,7)
proof (induction dbs arbitrary: s)
  case Nil
  then show ?case by simp
next
  case (Cons d rest)
  obtain r s' where f: "fetch_and_save_data c (clk d) d s = (r, s')"
    by (cases "fetch_and_save_data c (clk d) d s")
  obtain rs s'' where p: "process_databases c clk rest s' = (rs, s'')"
    by (cases "process_databases c clk rest s'")
  have fl: "can_makedirs s'" "can_write s'"
    using fetch_and_save_data_flags [of c "clk d" d s] f Cons.prems by simp_all
  have grow: "set (csv_files s') \<subseteq> set (csv_files s'')"
    using process_databases_flags [of c clk rest s'] p by simp
  show ?case
  proof (cases "d = db")
    case True
    then have "(output_file_of db (clk db), map drop_id docs) \<in> set (csv_files s')"
      using fetch_and_save_data_saved
          [where c = c and db = db and t = "clk db", OF assms(2-5) Cons.prems(2,3)] f
      by auto
    then show ?thesis using grow f p by auto
  next
    case False
    then have "db \<in> set rest" using Cons.prems(1) by simp
    from Cons.IH [OF this fl] show ?thesis using f p by simp
  qed
qed

lemma fetch_and_save_data_no_data:
  assumes "can_makedirs s" "list_collection_names (c d) = Inr ns"
    "latest_of ns = None \<or> (\<exists>cl. latest_of ns = Some cl \<and> documents (c d) cl = Inr [])"
  shows "fetch_and_save_data c t d s = (Inr None, s)"
  using assms
  by (auto simp: fetch_and_save_data_def get_latest_collection_r_def
      fetch_data_from_mongodb_def find_def)

text \<open>
  Claim C6. For any list of databases, the outcome logged for a database is the
  outcome of \<open>fetch_and_save_data\<close> on that database alone: what happens to the others
  does not change it. A database whose listing holds a name with the prefix and whose
  current collection holds a record is reported as saved, and its snapshot is
  written; a database without such a name, or with an empty current collection, is
  reported as failed (\<open>None\<close>), and the loop goes on. The snapshot directory can be
  created and written.
\<close>

theorem database_failure_stays_local:
  assumes "db \<in> set dbs" "list_collection_names (c db) = Inr names"
    "latest_of names = Some coll" "documents (c db) coll = Inr docs" "docs \<noteq> []"
    "can_makedirs s" "can_write s"
  shows "fst (process_databases c clk dbs s) =
      map (\<lambda>d. (d, fst (fetch_and_save_data c (clk d) d s))) dbs
    \<and> (db, Inr (Some (output_file_of db (clk db)))) \<in> set (fst (process_databases c clk dbs s))
    \<and> (output_file_of db (clk db), map drop_id docs)
        \<in> set (csv_files (snd (process_databases c clk dbs s)))
    \<and> (list_collection_names (c d) = Inr ns
        \<and> (latest_of ns = None \<or> (\<exists>cl. latest_of ns = Some cl \<and> documents (c d) cl = Inr []))
        \<longrightarrow> fst (fetch_and_save_data c (clk d) d s) = Inr None)"
proof -
  have "fst (fetch_and_save_data c (clk db) db s) = Inr (Some (output_file_of db (clk db)))"
    using fetch_and_save_data_saved [where c = c and db = db, OF assms(2-7)] by simp
  then have "(db, Inr (Some (output_file_of db (clk db))))
      \<in> set (map (\<lambda>d. (d, fst (fetch_and_save_data c (clk d) d s))) dbs)"
    using assms(1) by force
  then show ?thesis
    using process_databases_results [of c clk dbs s] process_databases_written [where c = c and db = db, OF assms]
      fetch_and_save_data_no_data [where c = c and d = d, OF assms(6), of ns "clk d"]
    by auto
qed

lemma latest_of_single: "latest_of [''Net_Data_1''] = Some ''Net_Data_1''"
  by (simp add: latest_of_def)

lemma half_client_run:
  "process_databases half_client noon DATABASES empty_snapshots =
     ([(''BACHV_BB_STOCKS'', Inr None),
       (''BACHV_UD_STOCKS'', Inr (Some ''Get_Data/UD/mongodb_data_20250101_120000.csv''))],
      empty_snapshots\<lparr>csv_files :=
        [(''Get_Data/UD/mongodb_data_20250101_120000.csv'', [JDict [(''a'', JInt 1)]])]\<rparr>)"
  by (simp add: DATABASES_def fetch_and_save_data_def get_latest_collection_r_def
      fetch_data_from_mongodb_def find_def save_to_csv_def half_client_def noon_def
      empty_snapshots_def latest_of_single output_file_of_def sub_dir_of_def latest_of_def)

theorem database_failure_stays_local_witness:
  "''BACHV_UD_STOCKS'' \<in> set DATABASES
   \<and> list_collection_names (half_client ''BACHV_UD_STOCKS'') = Inr [''Net_Data_1'']
   \<and> latest_of [''Net_Data_1''] = Some ''Net_Data_1''
   \<and> documents (half_client ''BACHV_UD_STOCKS'') ''Net_Data_1''
       = Inr [JDict [(''_id'', JOther), (''a'', JInt 1)]]
   \<and> can_makedirs empty_snapshots \<and> can_write empty_snapshots
   \<and> list_collection_names (half_client ''BACHV_BB_STOCKS'') = Inr []
   \<and> latest_of [] = None
   \<and> fst (process_databases half_client noon DATABASES empty_snapshots) =
       [(''BACHV_BB_STOCKS'', Inr None),
        (''BACHV_UD_STOCKS'', Inr (Some ''Get_Data/UD/mongodb_data_20250101_120000.csv''))]
   \<and> (''Get_Data/UD/mongodb_data_20250101_120000.csv'', [JDict [(''a'', JInt 1)]])
       \<in> set (csv_files (snd (process_databases half_client noon DATABASES empty_snapshots)))"
proof -
  have a: "''BACHV_UD_STOCKS'' \<in> set DATABASES"
    by (simp add: DATABASES_def)
  have b: "list_collection_names (half_client ''BACHV_UD_STOCKS'') = Inr [''Net_Data_1'']"
    and d: "documents (half_client ''BACHV_UD_STOCKS'') ''Net_Data_1''
       = Inr [JDict [(''_id'', JOther), (''a'', JInt 1)]]"
    and n: "list_collection_names (half_client ''BACHV_BB_STOCKS'') = Inr []"
    by (simp_all add: half_client_def)
  have e: "[JDict [(''_id'', JOther), (''a'', JInt 1)]] \<noteq> []" by simp
  have f: "can_makedirs empty_snapshots" "can_write empty_snapshots"
    by (simp_all add: empty_snapshots_def)
  have l: "latest_of [] = None" by (simp add: latest_of_def)
  show ?thesis
    using database_failure_stays_local
        [where c = half_client and db = "''BACHV_UD_STOCKS''" and d = "''BACHV_BB_STOCKS''"
           and ns = "[]" and clk = noon,
         OF a b latest_of_single d e f]
      a b d f n l half_client_run latest_of_single
    by simp
qed

subsection \<open>The exit status\<close>

lemma NetworkDataFetch_fails:
  "isl (NetworkDataFetch m) = (\<forall>retry < max_retries. isl (m retry))"
proof -
  have "(\<forall>retry < max_retries. isl (m retry)) = (isl (m 0) \<and> isl (m 1) \<and> isl (m 2))"
  proof
    assume "\<forall>retry < max_retries. isl (m retry)"
    then show "isl (m 0) \<and> isl (m 1) \<and> isl (m 2)" by (simp add: max_retries_def)
  next
    assume a: "isl (m 0) \<and> isl (m 1) \<and> isl (m 2)"
    show "\<forall>retry < max_retries. isl (m retry)"
    proof (intro allI impI)
      fix retry assume "retry < max_retries"
      then have "retry = 0 \<or> retry = 1 \<or> retry = 2" by (auto simp: max_retries_def)
      with a show "isl (m retry)" by auto
    qed
  qed
  moreover have "isl (NetworkDataFetch m) = (isl (m 0) \<and> isl (m 1) \<and> isl (m 2))"
    unfolding NetworkDataFetch_def range_max_retries
    by (auto simp: max_retries_def split: sum.splits)
  ultimately show ?thesis by simp
qed

text \<open>
  Claim C5, as the code has it. The refresher exits with status 1 when all three
  connection attempts of the constructor fail, and with status 0 in every other run,
  whatever was logged for the databases.
\<close>

theorem refresher_exit_status:
  "fst (refresher_main m clk s) = (if (\<forall>retry < max_retries. isl (m retry)) then 1 else 0)"
proof (cases "NetworkDataFetch m")
  case (Inl e)
  then have "isl (NetworkDataFetch m)" by simp
  then have "\<forall>retry < max_retries. isl (m retry)" by (simp add: NetworkDataFetch_fails)
  then show ?thesis using Inl by (simp add: refresher_main_def)
next
  case (Inr c)
  then have "\<not> isl (NetworkDataFetch m)" by simp
  then have "\<not> (\<forall>retry < max_retries. isl (m retry))" by (simp add: NetworkDataFetch_fails)
  then show ?thesis using Inr by (simp add: refresher_main_def split: prod.splits)
qed

lemma empty_store_run:
  "refresher_main empty_store noon empty_snapshots =
     (0, [(''BACHV_BB_STOCKS'', Inr None), (''BACHV_UD_STOCKS'', Inr None)], empty_snapshots)"
proof -
  have "NetworkDataFetch empty_store = Inr empty_client"
    unfolding NetworkDataFetch_def range_max_retries by (simp add: empty_store_def)
  then show ?thesis
    by (simp add: refresher_main_def DATABASES_def fetch_and_save_data_def
        get_latest_collection_r_def empty_client_def empty_snapshots_def latest_of_def)
qed

theorem refresher_exit_status_witness:
  "isl (unreachable_store 0) \<and> isl (unreachable_store 1) \<and> isl (unreachable_store 2)
   \<and> fst (refresher_main unreachable_store noon empty_snapshots) = 1
   \<and> \<not> isl (empty_store 0)
   \<and> fst (refresher_main empty_store noon empty_snapshots) = 0"
proof -
  have u: "\<forall>retry < max_retries. isl (unreachable_store retry)"
    by (simp add: unreachable_store_def)
  have "(0::nat) < max_retries" "\<not> isl (empty_store 0)"
    by (simp_all add: empty_store_def max_retries_def)
  then have e: "\<not> (\<forall>retry < max_retries. isl (empty_store retry))"
    by blast
  show ?thesis
    using u e refresher_exit_status [of unreachable_store noon empty_snapshots]
      refresher_exit_status [of empty_store noon empty_snapshots]
    by (simp add: unreachable_store_def empty_store_def)
qed

text \<open>
  The claim as written fails: a run that reaches the store and finds no current
  collection in either database saves no snapshot and still exits with status 0.
\<close>

theorem no_snapshot_exit_zero:
  "saved_files (fst (snd (refresher_main empty_store noon empty_snapshots))) = []
   \<and> csv_files (snd (snd (refresher_main empty_store noon empty_snapshots))) = []
   \<and> fst (refresher_main empty_store noon empty_snapshots) = 0"
proof -
  have "csv_files empty_snapshots = []" by (simp add: empty_snapshots_def)
  then show ?thesis by (simp add: empty_store_run)
qed

section \<open>Properties of the snapshot selection\<close>

lemma max_key_mem: "max_key key best xs \<in> set (best # xs)"
  by (induction xs arbitrary: best) auto

lemma max_key_ge_best: "key best \<le> key (max_key key best xs)"
proof (induction xs arbitrary: best)
  case Nil
  then show ?case by simp
next
  case (Cons y ys)
  have "key best \<le> key (if key best < key y then y else best)" by auto
  also have "\<dots> \<le> key (max_key key (if key best < key y then y else best) ys)"
    by (rule Cons.IH)
  finally show ?case by simp
qed

lemma max_key_ge_elem: "x \<in> set xs \<Longrightarrow> key x \<le> key (max_key key best xs)"
proof (induction xs arbitrary: best)
  case Nil
  then show ?case by simp
next
  case (Cons y ys)
  show ?case
  proof (cases "x = y")
    case True
    have "key y \<le> key (if key best < key y then y else best)" by auto
    also have "\<dots> \<le> key (max_key key (if key best < key y then y else best) ys)"
      by (rule max_key_ge_best)
    finally show ?thesis using True by simp
  next
    case False
    then have "x \<in> set ys" using Cons.prems by simp
    then have "key x \<le> key (max_key key (if key best < key y then y else best) ys)"
      by (rule Cons.IH)
    then show ?thesis by simp
  qed
qed

lemma max_key_greatest: "x \<in> set (best # xs) \<Longrightarrow> key x \<le> key (max_key key best xs)"
  using max_key_ge_best [of key best xs] max_key_ge_elem [of x xs key best] by auto

lemma max_key_order_independent:
  assumes "inj_on key (set (b # xs))" "set (c # ys) = set (b # xs)"
  shows "max_key key c ys = max_key key b xs"
proof -
  let ?p = "max_key key b xs" and ?q = "max_key key c ys"
  have p: "?p \<in> set (b # xs)" by (rule max_key_mem)
  have "?q \<in> set (c # ys)" by (rule max_key_mem)
  then have q: "?q \<in> set (b # xs)" unfolding assms(2) .
  have p': "?p \<in> set (c # ys)" using p unfolding assms(2) .
  have "key ?q \<le> key ?p" using q by (rule max_key_greatest)
  moreover have "key ?p \<le> key ?q" using p' by (rule max_key_greatest)
  ultimately have k: "key ?q = key ?p" by simp
  from assms(1) k q p show ?thesis by (rule inj_onD)
qed

text \<open>
  Claim C8. For a valid data type whose directory exists and lists at least one
  snapshot, all with distinct creation times and all loadable, \<open>get_latest_csv\<close>
  returns a listed file whose creation time is the greatest, and it returns the same
  file for every other order of the same listing.
\<close>

theorem latest_csv_is_newest:
  assumes "upper data_type \<in> {''BB'', ''UD''}"
    and "d = dirs (upper data_type)"
    and "dir_exists d"
    and "glob d \<noteq> []"
    and "inj_on (getctime d) (set (glob d))"
    and "\<forall>f \<in> set (glob d). isfile d f \<and> read_csv_ok d f"
  shows "\<exists>f. get_latest_csv dirs data_type = Inr f \<and> f \<in> set (glob d)
      \<and> (\<forall>g \<in> set (glob d). getctime d g \<le> getctime d f)
      \<and> (set listing = set (glob d) \<longrightarrow>
          get_latest_csv (dirs (upper data_type := d\<lparr>glob := listing\<rparr>)) data_type = Inr f)"
proof -
  obtain b xs where g: "glob d = b # xs" using assms(4) by (cases "glob d") auto
  let ?f = "max_key (getctime d) b xs"
  have m: "?f \<in> set (glob d)" using max_key_mem [of "getctime d" b xs] g by simp
  then have ok: "isfile d ?f" "read_csv_ok d ?f" using assms(6) by auto
  have r: "get_latest_csv dirs data_type = Inr ?f"
    using assms(1,3) assms(2) [symmetric] g ok by (simp add: get_latest_csv_def Let_def)
  have ge: "\<forall>x \<in> set (glob d). getctime d x \<le> getctime d ?f"
    using max_key_greatest [of _ b xs "getctime d"] g by simp
  have oi: "get_latest_csv (dirs (upper data_type := d\<lparr>glob := listing\<rparr>)) data_type = Inr ?f"
    if s: "set listing = set (glob d)"
  proof -
    from s g obtain c ys where l: "listing = c # ys" by (cases listing) auto
    have "inj_on (getctime d) (set (b # xs))" "set (c # ys) = set (b # xs)"
      using assms(5) s g l by simp_all
    then have "max_key (getctime d) c ys = ?f"
      by (rule max_key_order_independent)
    then show ?thesis
      using assms(1,3) l ok by (simp add: get_latest_csv_def Let_def)
  qed
  show ?thesis using r m ge oi by blast
qed

theorem latest_csv_is_newest_witness:
  "upper ''BB'' \<in> {''BB'', ''UD''}
   \<and> dir_exists three_snapshots \<and> glob three_snapshots \<noteq> []
   \<and> inj_on (getctime three_snapshots) (set (glob three_snapshots))
   \<and> get_latest_csv (\<lambda>sub_dir. three_snapshots) ''BB'' = Inr ''mongodb_data_b.csv''
   \<and> get_latest_csv ((\<lambda>sub_dir. three_snapshots)
        (upper ''BB'' := three_snapshots\<lparr>glob :=
           [''mongodb_data_c.csv'', ''mongodb_data_b.csv'', ''mongodb_data_a.csv'']\<rparr>)) ''BB''
       = Inr ''mongodb_data_b.csv''"
proof -
  have u: "upper ''BB'' = ''BB''" by (simp add: upper_def upper_char_def)
  have a: "upper ''BB'' \<in> {''BB'', ''UD''}" using u by simp
  have b: "three_snapshots = (\<lambda>sub_dir. three_snapshots) (upper ''BB'')" by simp
  have c: "dir_exists three_snapshots" "glob three_snapshots \<noteq> []"
    by (simp_all add: three_snapshots_def)
  have i: "inj_on (getctime three_snapshots) (set (glob three_snapshots))"
    by (simp add: three_snapshots_def inj_on_def)
  have e: "\<forall>f \<in> set (glob three_snapshots). isfile three_snapshots f \<and> read_csv_ok three_snapshots f"
    by (simp add: three_snapshots_def)
  have r: "get_latest_csv (\<lambda>sub_dir. three_snapshots) ''BB'' = Inr ''mongodb_data_b.csv''"
    by (simp add: get_latest_csv_def u three_snapshots_def)
  have s: "set [''mongodb_data_c.csv'', ''mongodb_data_b.csv'', ''mongodb_data_a.csv'']
      = set (glob three_snapshots)"
    by (auto simp: three_snapshots_def)
  show ?thesis
    using latest_csv_is_newest [OF a b c i e,
        of "[''mongodb_data_c.csv'', ''mongodb_data_b.csv'', ''mongodb_data_a.csv'']"]
      a c i r s
    by auto
qed

section \<open>Properties of the fingerprint\<close>

subsection \<open>Sorting the items of a dict\<close>

lemma insort_key_rel:
  assumes "R x y" "fst x = fst y" "list_all2 (\<lambda>a b. R a b \<and> fst a = fst b) xs ys"
  shows "list_all2 (\<lambda>a b. R a b \<and> fst a = fst b)
    (insort_key fst x xs) (insort_key fst y ys)"
  using assms(3,1,2)
  by (induction xs ys rule: list_all2_induct) auto

lemma sort_key_rel:
  assumes "list_all2 (\<lambda>a b. R a b \<and> fst a = fst b) xs ys"
  shows "list_all2 (\<lambda>a b. R a b \<and> fst a = fst b) (sort_key fst xs) (sort_key fst ys)"
  using assms
  by (induction xs ys rule: list_all2_induct) (auto intro: insort_key_rel)

lemma filter_same_key:
  assumes "distinct (map fst xs)" "k \<in> set xs"
  shows "filter (\<lambda>x. fst k = fst x) xs = [k]"
  using assms
proof (induction xs)
  case Nil
  then show ?case by simp
next
  case (Cons a xs)
  show ?case
  proof (cases "k = a")
    case True
    have "filter (\<lambda>x. fst k = fst x) xs = []"
      using Cons.prems(1) True by (auto simp: filter_empty_conv)
    with True show ?thesis by simp
  next
    case False
    then have "k \<in> set xs" using Cons.prems(2) by simp
    moreover have "fst a \<notin> fst ` set xs" using Cons.prems(1) by simp
    then have "fst k \<noteq> fst a" using \<open>k \<in> set xs\<close> by (metis imageI)
    ultimately show ?thesis using Cons by simp
  qed
qed

lemma sort_key_permutation:
  assumes "distinct (map fst xs)" "mset xs = mset ys"
  shows "sort_key fst ys = sort_key fst xs"
proof (rule properties_for_sort_key)
  show "mset (sort_key fst xs) = mset ys" using assms(2) by simp
  show "sorted (map fst (sort_key fst xs))" by simp
  fix k assume k: "k \<in> set (sort_key fst xs)"
  have "mset (map fst xs) = mset (map fst ys)"
    using assms(2) by (metis mset_map)
  then have dy: "distinct (map fst ys)"
    using assms(1) by (metis mset_eq_imp_distinct_iff)
  have "distinct (map fst (sort_key fst xs))"
    using assms(1) by (simp add: distinct_map)
  then have "filter (\<lambda>x. fst k = fst x) (sort_key fst xs) = [k]"
    using k by (rule filter_same_key)
  moreover have "k \<in> set ys" using k assms(2) by (metis mset_eq_setD set_sort)
  then have "filter (\<lambda>x. fst k = fst x) ys = [k]"
    using dy by (intro filter_same_key)
  ultimately show "filter (\<lambda>x. fst k = fst x) (sort_key fst xs) = filter (\<lambda>x. fst k = fst x) ys"
    by simp
qed


subsection \<open>The encoder does not see the order of the items\<close>

lemma map_eq_of_rel:
  assumes "list_all2 (\<lambda>x y. f x = g y) xs ys"
  shows "map f xs = map g ys"
  using assms by (induction xs ys rule: list_all2_induct) auto

lemma all_eq_of_rel:
  assumes "list_all2 (\<lambda>x y. P x = Q y) xs ys"
  shows "(\<forall>x \<in> set xs. P x) = (\<forall>y \<in> set ys. Q y)"
  using assms by (induction xs ys rule: list_all2_induct) auto

lemma list_all2_strengthen:
  assumes "list_all2 P xs ys"
    and "\<And>x y. x \<in> set xs \<Longrightarrow> y \<in> set ys \<Longrightarrow> P x y \<Longrightarrow> Q x y"
  shows "list_all2 Q xs ys"
  using assms by (rule list.rel_mono_strong)

lemma wf_json_permutation:
  assumes "mset kvs' = mset kvs''" "wf_json (JDict kvs'')"
  shows "wf_json (JDict kvs')"
proof -
  have "mset (map fst kvs') = mset (map fst kvs'')"
    using assms(1) by (metis mset_map)
  moreover have "distinct (map fst kvs'')" using assms(2) by simp
  ultimately have "distinct (map fst kvs')" by (metis mset_eq_imp_distinct_iff)
  moreover have "set kvs' = set kvs''" using assms(1) by (rule mset_eq_setD)
  ultimately show ?thesis using assms(2) by simp
qed

lemma same_data_dumps:
  assumes "same_data a b"
  shows "wf_json a \<Longrightarrow> wf_json b \<Longrightarrow> dumps a = dumps b \<and> serializable a = serializable b"
  using assms
proof (induction rule: same_data.induct)
  case (same_value v)
  then show ?case by simp
next
  case (same_list xs ys)
  have wx: "\<forall>x \<in> set xs. wf_json x" and wy: "\<forall>y \<in> set ys. wf_json y"
    using same_list.prems by simp_all
  have r: "list_all2 (\<lambda>x y. dumps x = dumps y \<and> serializable x = serializable y) xs ys"
    by (rule list_all2_strengthen [OF same_list.IH]) (use wx wy in auto)
  have "map dumps xs = map dumps ys"
    by (rule map_eq_of_rel, rule list_all2_strengthen [OF r]) simp
  moreover have "(\<forall>x \<in> set xs. serializable x) = (\<forall>y \<in> set ys. serializable y)"
    by (rule all_eq_of_rel, rule list_all2_strengthen [OF r]) simp
  ultimately show ?case by simp
next
  case (same_dict kvs kvs' kvs'')
  let ?entry = "\<lambda>kv. encode_basestring_ascii (fst kv) @ '': '' @ dumps (snd kv)"
  have w': "wf_json (JDict kvs')"
    using same_dict.hyps same_dict.prems(2) by (rule wf_json_permutation)
  have wx: "\<forall>kv \<in> set kvs. wf_json (snd kv)" and wy: "\<forall>kv \<in> set kvs'. wf_json (snd kv)"
    and d': "distinct (map fst kvs')"
    using same_dict.prems(1) w' by simp_all
  have r: "list_all2 (\<lambda>a b. (dumps (snd a) = dumps (snd b)
        \<and> serializable (snd a) = serializable (snd b)) \<and> fst a = fst b) kvs kvs'"
    by (rule list_all2_strengthen [OF same_dict.IH]) (use wx wy in auto)
  have "list_all2 (\<lambda>a b. (dumps (snd a) = dumps (snd b)
        \<and> serializable (snd a) = serializable (snd b)) \<and> fst a = fst b)
      (sort_key fst kvs) (sort_key fst kvs')"
    using r by (rule sort_key_rel)
  then have "map ?entry (sort_key fst kvs) = map ?entry (sort_key fst kvs')"
    by (intro map_eq_of_rel) (erule list_all2_strengthen, simp)
  moreover have "sort_key fst kvs'' = sort_key fst kvs'"
    using d' same_dict.hyps by (rule sort_key_permutation)
  ultimately have a: "dumps (JDict kvs) = dumps (JDict kvs'')" by simp
  have "(\<forall>kv \<in> set kvs. serializable (snd kv)) = (\<forall>kv \<in> set kvs'. serializable (snd kv))"
    by (rule all_eq_of_rel, rule list_all2_strengthen [OF r]) simp
  moreover have "set kvs' = set kvs''" using same_dict.hyps by (rule mset_eq_setD)
  ultimately have b: "serializable (JDict kvs) = serializable (JDict kvs'')" by simp
  show ?case using a b by simp
qed


subsection \<open>The projection and the current collection\<close>

lemma filter_rel:
  assumes "list_all2 (\<lambda>a b. fst a = fst b \<and> R a b) xs ys"
  shows "list_all2 (\<lambda>a b. fst a = fst b \<and> R a b)
    (filter (\<lambda>kv. fst kv \<noteq> k) xs) (filter (\<lambda>kv. fst kv \<noteq> k) ys)"
  using assms by (induction xs ys rule: list_all2_induct) auto

lemma same_data_drop_id:
  assumes "same_data a b"
  shows "same_data (drop_id a) (drop_id b)"
  using assms
proof (cases rule: same_data.cases)
  case same_value
  then show ?thesis by (simp add: same_data.same_value)
next
  case (same_list xs ys)
  then show ?thesis using assms by simp
next
  case (same_dict kvs kvs' kvs'')
  have "list_all2 (\<lambda>kv kv'. fst kv = fst kv' \<and> same_data (snd kv) (snd kv'))
      (filter (\<lambda>kv. fst kv \<noteq> ''_id'') kvs) (filter (\<lambda>kv. fst kv \<noteq> ''_id'') kvs')"
    using same_dict(3) by (rule filter_rel)
  moreover have "mset (filter (\<lambda>kv. fst kv \<noteq> ''_id'') kvs')
      = mset (filter (\<lambda>kv. fst kv \<noteq> ''_id'') kvs'')"
    using same_dict(4) by simp
  ultimately show ?thesis
    using same_dict(1,2) by (simp add: same_data.same_dict)
qed

lemma wf_json_drop_id: "wf_json a \<Longrightarrow> wf_json (drop_id a)"
  by (cases a) (auto simp: distinct_map_filter)

lemma sorted_le_last: "sorted xs \<Longrightarrow> y \<in> set xs \<Longrightarrow> y \<le> last xs"
  by (induction xs) auto

lemma last_sort_Max:
  fixes xs :: "'a::linorder list"
  assumes "xs \<noteq> []"
  shows "last (sort xs) = Max (set xs)"
proof -
  have ne: "sort xs \<noteq> []"
  proof
    assume "sort xs = []"
    then have "length (sort xs) = 0" by (simp only: list.size)
    then have "length xs = 0" by (simp only: length_sort)
    with assms show False by (simp only: length_0_conv)
  qed
  have "Max (set (sort xs)) = last (sort xs)"
  proof (rule Max_eqI)
    show "finite (set (sort xs))" by simp
    show "last (sort xs) \<in> set (sort xs)" using ne by (rule last_in_set)
    fix y assume "y \<in> set (sort xs)"
    with sorted_sort [of xs] show "y \<le> last (sort xs)" by (rule sorted_le_last)
  qed
  then show ?thesis by simp
qed

lemma latest_of_Max:
  "latest_of names =
     (if filter (\<lambda>coll. startswith coll ''Net_Data_'') names = [] then None
      else Some (Max (set (filter (\<lambda>coll. startswith coll ''Net_Data_'') names))))"
proof (cases "filter (\<lambda>coll. startswith coll ''Net_Data_'') names = []")
  case True
  then show ?thesis by (simp add: latest_of_def)
next
  case False
  let ?cs = "filter (\<lambda>coll. startswith coll ''Net_Data_'') names"
  have ne: "rev (sort ?cs) \<noteq> []"
  proof
    assume "rev (sort ?cs) = []"
    then have "length (rev (sort ?cs)) = 0" by (simp only: list.size)
    then have "length ?cs = 0" by (simp only: length_rev length_sort)
    with False show False by (simp only: length_0_conv)
  qed
  then obtain x rest where r: "rev (sort ?cs) = x # rest" by (cases "rev (sort ?cs)") auto
  then have "x = hd (rev (sort ?cs))" by simp
  also have "\<dots> = last (sort ?cs)" by (rule hd_rev)
  also have "\<dots> = Max (set ?cs)" using False by (rule last_sort_Max)
  finally show ?thesis using False r by (simp add: latest_of_def)
qed

lemma latest_of_set: "set ns = set ns' \<Longrightarrow> latest_of ns = latest_of ns'"
proof -
  assume s: "set ns = set ns'"
  let ?p = "\<lambda>coll. startswith coll ''Net_Data_''"
  have e: "set (filter ?p ns) = set (filter ?p ns')" using s by simp
  then have "(filter ?p ns = []) = (filter ?p ns' = [])"
    using set_empty [of "filter ?p ns"] set_empty [of "filter ?p ns'"] by (simp del: set_filter)
  with e show ?thesis by (simp only: latest_of_Max)
qed


subsection \<open>The fingerprint of the same store\<close>

lemma rel_sum_cases:
  assumes "rel_sum R S x y"
  obtains (Inl) a b where "x = Inl a" "y = Inl b" "R a b"
    | (Inr) a b where "x = Inr a" "y = Inr b" "S a b"
  using assms by (cases x; cases y) auto

lemma get_latest_collection_same:
  assumes "same_store c1 c2" "db \<in> set DATABASES"
  shows "get_latest_collection c1 db = get_latest_collection c2 db"
proof -
  have r: "rel_sum (\<lambda>e e'. True) (\<lambda>ns ns'. set ns = set ns')
      (list_collection_names (c1 db)) (list_collection_names (c2 db))"
    using assms by (simp add: same_store_def)
  then show ?thesis
  proof (cases rule: rel_sum_cases)
    case (Inl e e')
    then show ?thesis by (simp add: get_latest_collection_def)
  next
    case (Inr ns ns')
    then show ?thesis using latest_of_set [of ns ns'] by (simp add: get_latest_collection_def)
  qed
qed

lemma find_same:
  assumes "same_store c1 c2" "db \<in> set DATABASES"
  shows "rel_sum (=) (list_all2 (\<lambda>x y. same_data x y \<and> wf_json x \<and> wf_json y))
    (find (c1 db) coll) (find (c2 db) coll)"
proof -
  have r: "rel_sum (=) (list_all2 same_data) (documents (c1 db) coll) (documents (c2 db) coll)"
    using assms by (simp add: same_store_def)
  then show ?thesis
  proof (cases rule: rel_sum_cases)
    case (Inl e e')
    then show ?thesis by (simp add: find_def)
  next
    case (Inr docs docs')
    have w: "\<forall>d \<in> set docs. wf_json d" "\<forall>d \<in> set docs'. wf_json d"
      using assms(1) Inr(1,2) unfolding same_store_def wf_client_def by blast+
    have "list_all2 (\<lambda>x y. same_data (drop_id x) (drop_id y)
        \<and> wf_json (drop_id x) \<and> wf_json (drop_id y)) docs docs'"
      by (rule list_all2_strengthen [OF Inr(3)])
        (use w in \<open>auto intro: same_data_drop_id wf_json_drop_id\<close>)
    then have "list_all2 (\<lambda>x y. same_data x y \<and> wf_json x \<and> wf_json y)
        (map drop_id docs) (map drop_id docs')"
      by (simp add: list_all2_map1 list_all2_map2)
    then show ?thesis using Inr(1,2) by (simp add: find_def)
  qed
qed

lemma wrapper_same:
  assumes "list_all2 (\<lambda>x y. same_data x y \<and> wf_json x \<and> wf_json y) docs docs'"
  shows "same_data
      (JDict [(''database'', JStr db), (''collection'', JStr coll), (''data'', JList docs)])
      (JDict [(''database'', JStr db), (''collection'', JStr coll), (''data'', JList docs')])
    \<and> wf_json (JDict [(''database'', JStr db), (''collection'', JStr coll), (''data'', JList docs)])
    \<and> wf_json (JDict [(''database'', JStr db), (''collection'', JStr coll), (''data'', JList docs')])"
proof -
  have sd: "list_all2 same_data docs docs'"
    by (rule list_all2_strengthen [OF assms]) simp
  have w: "\<forall>d \<in> set docs. wf_json d" "\<forall>d \<in> set docs'. wf_json d"
    using assms by (auto simp: list_all2_conv_all_nth in_set_conv_nth)
  have "same_data (JList docs) (JList docs')" using sd by (rule same_list)
  then have "list_all2 (\<lambda>kv kv'. fst kv = fst kv' \<and> same_data (snd kv) (snd kv'))
      [(''database'', JStr db), (''collection'', JStr coll), (''data'', JList docs)]
      [(''database'', JStr db), (''collection'', JStr coll), (''data'', JList docs')]"
    by (simp add: same_value)
  then have "same_data
      (JDict [(''database'', JStr db), (''collection'', JStr coll), (''data'', JList docs)])
      (JDict [(''database'', JStr db), (''collection'', JStr coll), (''data'', JList docs')])"
    by (rule same_dict) simp
  then show ?thesis using w by simp
qed

lemma collect_all_data_same:
  assumes "same_store c1 c2" "set dbs \<subseteq> set DATABASES"
  shows "rel_sum (=) (list_all2 (\<lambda>x y. same_data x y \<and> wf_json x \<and> wf_json y))
    (collect_all_data c1 dbs) (collect_all_data c2 dbs)"
  using assms(2)
proof (induction dbs)
  case Nil
  then show ?case by simp
next
  case (Cons db rest)
  have db: "db \<in> set DATABASES" and rest: "set rest \<subseteq> set DATABASES"
    using Cons.prems by simp_all
  note ih = Cons.IH [OF rest]
  note l = get_latest_collection_same [OF assms(1) db]
  show ?case
  proof (cases "get_latest_collection c2 db")
    case None
    then show ?thesis using l ih by simp
  next
    case (Some coll)
    from find_same [OF assms(1) db, of coll] show ?thesis
    proof (cases rule: rel_sum_cases)
      case (Inl e e')
      then show ?thesis using l Some by simp
    next
      case (Inr docs docs')
      note f = Inr
      from ih show ?thesis
      proof (cases rule: rel_sum_cases)
        case (Inl e e')
        then show ?thesis using l Some f by simp
      next
        case (Inr all1 all2)
        then show ?thesis
          using l Some f wrapper_same [OF f(3), of db coll] by simp
      qed
    qed
  qed
qed

lemma hash_of_client_same:
  assumes "same_store c1 c2"
  shows "hash_of_client c1 = hash_of_client c2"
proof -
  have "rel_sum (=) (list_all2 (\<lambda>x y. same_data x y \<and> wf_json x \<and> wf_json y))
      (collect_all_data c1 DATABASES) (collect_all_data c2 DATABASES)"
    using assms by (rule collect_all_data_same) simp
  then show ?thesis
  proof (cases rule: rel_sum_cases)
    case (Inl e e')
    then show ?thesis by (simp add: hash_of_client_def)
  next
    case (Inr all1 all2)
    have sd: "list_all2 same_data all1 all2"
      by (rule list_all2_strengthen [OF Inr(3)]) simp
    have w: "\<forall>d \<in> set all1. wf_json d" "\<forall>d \<in> set all2. wf_json d"
      using Inr(3) by (auto simp: list_all2_conv_all_nth in_set_conv_nth)
    have "same_data (JList all1) (JList all2)" using sd by (rule same_list)
    then have "dumps (JList all1) = dumps (JList all2)
        \<and> serializable (JList all1) = serializable (JList all2)"
      by (rule same_data_dumps) (use w in simp_all)
    then have "json_dumps (JList all1) = json_dumps (JList all2)"
      by (simp add: json_dumps_def)
    then show ?thesis using Inr(1,2) by (simp add: hash_of_client_def)
  qed
qed

lemma attempt_hash_same:
  assumes "rel_sum (\<lambda>e e'. True) same_store (m1 retry) (m2 retry)"
  shows "rel_sum (\<lambda>e e'. True) (=) (attempt_hash m1 retry) (attempt_hash m2 retry)"
  using assms
proof (cases rule: rel_sum_cases)
  case (Inl e e')
  then show ?thesis by (simp add: attempt_hash_def)
next
  case (Inr c c')
  then have "attempt_hash m1 retry = attempt_hash m2 retry"
    using hash_of_client_same [of c c'] by (simp add: attempt_hash_def)
  then show ?thesis by (cases "attempt_hash m2 retry") simp_all
qed

lemma hash_loop_same:
  assumes "\<forall>retry \<in> set rs. rel_sum (\<lambda>e e'. True) same_store (m1 retry) (m2 retry)"
  shows "hash_loop m1 rs = hash_loop m2 rs"
  using assms
proof (induction rs)
  case Nil
  then show ?case by simp
next
  case (Cons retry rest)
  have "rel_sum (\<lambda>e e'. True) (=) (attempt_hash m1 retry) (attempt_hash m2 retry)"
    using Cons.prems by (intro attempt_hash_same) simp
  then show ?case
  proof (cases rule: rel_sum_cases)
    case (Inl e e')
    then show ?thesis using Cons by simp
  next
    case (Inr h h')
    then show ?thesis by simp
  qed
qed

text \<open>
  Claim C2, as the code has it. When, attempt by attempt, two stores are both
  unreachable or show the same store (the same collection names per database, and per
  collection the same records in the same cursor order, whatever the order of the
  keys inside the records), \<open>get_mongodb_data_hash\<close> gives the same result for both.
\<close>

theorem fingerprint_ignores_key_order:
  assumes "\<forall>retry < max_retries. rel_sum (\<lambda>e e'. True) same_store (m1 retry) (m2 retry)"
  shows "get_mongodb_data_hash m1 = get_mongodb_data_hash m2"
  unfolding get_mongodb_data_hash_def using assms by (intro hash_loop_same) simp


subsection \<open>Two orders of the same records\<close>

lemma all_data_forward:
  "collect_all_data (client_with docs) DATABASES =
     Inr [JDict [(''database'', JStr ''BACHV_BB_STOCKS''), (''collection'', JStr ''Net_Data_1''),
                 (''data'', JList (map drop_id docs))]]"
  by (simp add: DATABASES_def get_latest_collection_def client_with_def latest_of_def find_def)

lemma dumps_forward:
  "dumps (JList [JDict [(''database'', JStr ''BACHV_BB_STOCKS''), (''collection'', JStr ''Net_Data_1''),
      (''data'', JList [record_one, record_two])]]) =
   ''[{\"collection\": \"Net_Data_1\", \"data\": [{\"a\": 1, \"b\": \"x\"}, {\"a\": 2, \"b\": \"y\"}], \"database\": \"BACHV_BB_STOCKS\"}]''"
  by code_simp

lemma dumps_backward:
  "dumps (JList [JDict [(''database'', JStr ''BACHV_BB_STOCKS''), (''collection'', JStr ''Net_Data_1''),
      (''data'', JList [record_two, record_one])]]) =
   ''[{\"collection\": \"Net_Data_1\", \"data\": [{\"a\": 2, \"b\": \"y\"}, {\"a\": 1, \"b\": \"x\"}], \"database\": \"BACHV_BB_STOCKS\"}]''"
  by code_simp

lemma md5_forward:
  "md5_hexdigest (encode ''[{\"collection\": \"Net_Data_1\", \"data\": [{\"a\": 1, \"b\": \"x\"}, {\"a\": 2, \"b\": \"y\"}], \"database\": \"BACHV_BB_STOCKS\"}]'')
    = ''a42279b5e0dec4a52443bd5f7391d962''"
  by code_simp

lemma md5_backward:
  "md5_hexdigest (encode ''[{\"collection\": \"Net_Data_1\", \"data\": [{\"a\": 2, \"b\": \"y\"}, {\"a\": 1, \"b\": \"x\"}], \"database\": \"BACHV_BB_STOCKS\"}]'')
    = ''c1b4bd673007763965305726712942d9''"
  by code_simp


lemma hash_forward:
  "get_mongodb_data_hash forward_store = Some ''a42279b5e0dec4a52443bd5f7391d962''"
proof -
  have "map drop_id [record_one, record_two] = [record_one, record_two]"
    by (simp add: record_one_def record_two_def)
  moreover have "serializable (JList [JDict [(''database'', JStr ''BACHV_BB_STOCKS''),
      (''collection'', JStr ''Net_Data_1''), (''data'', JList [record_one, record_two])]])"
    by (simp add: record_one_def record_two_def)
  ultimately have "hash_of_client (client_with [record_one, record_two])
      = Inr ''a42279b5e0dec4a52443bd5f7391d962''"
    by (simp only: hash_of_client_def all_data_forward json_dumps_def dumps_forward md5_forward
        sum.case if_True)
  then show ?thesis
    unfolding get_mongodb_data_hash_def range_max_retries
    by (simp add: attempt_hash_def forward_store_def)
qed

lemma hash_backward:
  "get_mongodb_data_hash backward_store = Some ''c1b4bd673007763965305726712942d9''"
proof -
  have "map drop_id [record_two, record_one] = [record_two, record_one]"
    by (simp add: record_one_def record_two_def)
  moreover have "serializable (JList [JDict [(''database'', JStr ''BACHV_BB_STOCKS''),
      (''collection'', JStr ''Net_Data_1''), (''data'', JList [record_two, record_one])]])"
    by (simp add: record_one_def record_two_def)
  ultimately have "hash_of_client (client_with [record_two, record_one])
      = Inr ''c1b4bd673007763965305726712942d9''"
    by (simp only: hash_of_client_def all_data_forward json_dumps_def dumps_backward md5_backward
        sum.case if_True)
  then show ?thesis
    unfolding get_mongodb_data_hash_def range_max_retries
    by (simp add: attempt_hash_def backward_store_def)
qed

text \<open>
  The claim as written fails: the same two records, returned by the cursor in the other
  order, give another digest.
\<close>

theorem record_order_changes_fingerprint:
  "set [record_one, record_two] = set [record_two, record_one]
   \<and> get_mongodb_data_hash forward_store = Some ''a42279b5e0dec4a52443bd5f7391d962''
   \<and> get_mongodb_data_hash backward_store = Some ''c1b4bd673007763965305726712942d9''
   \<and> get_mongodb_data_hash forward_store \<noteq> get_mongodb_data_hash backward_store"
  by (simp add: hash_forward hash_backward insert_commute)

lemma same_store_client_with:
  assumes "list_all2 same_data docs docs'" "\<forall>d \<in> set docs. wf_json d"
    "\<forall>d \<in> set docs'. wf_json d"
  shows "same_store (client_with docs) (client_with docs')"
  using assms by (simp add: same_store_def wf_client_def client_with_def DATABASES_def)

lemma record_one_same: "same_data record_one record_one_reordered"
proof -
  have "list_all2 (\<lambda>kv kv'. fst kv = fst kv' \<and> same_data (snd kv) (snd kv'))
      [(''a'', JInt 1), (''b'', JStr ''x'')] [(''a'', JInt 1), (''b'', JStr ''x'')]"
    by (simp add: same_value)
  then show ?thesis
    unfolding record_one_def record_one_reordered_def by (rule same_dict) simp
qed

theorem fingerprint_ignores_key_order_witness:
  "same_store (client_with [record_one, record_two]) (client_with [record_one_reordered, record_two])
   \<and> record_one \<noteq> record_one_reordered
   \<and> get_mongodb_data_hash forward_store = Some ''a42279b5e0dec4a52443bd5f7391d962''
   \<and> get_mongodb_data_hash reordered_store = Some ''a42279b5e0dec4a52443bd5f7391d962''"
proof -
  have "list_all2 same_data [record_one, record_two] [record_one_reordered, record_two]"
    using record_one_same by (simp add: same_value)
  moreover have "\<forall>d \<in> set [record_one, record_two]. wf_json d"
    "\<forall>d \<in> set [record_one_reordered, record_two]. wf_json d"
    by (simp_all add: record_one_def record_one_reordered_def record_two_def)
  ultimately have s: "same_store (client_with [record_one, record_two])
      (client_with [record_one_reordered, record_two])"
    by (rule same_store_client_with)
  then have h: "\<forall>retry < max_retries.
      rel_sum (\<lambda>e e'. True) same_store (forward_store retry) (reordered_store retry)"
    by (simp add: forward_store_def reordered_store_def)
  have n: "record_one \<noteq> record_one_reordered"
    by (simp add: record_one_def record_one_reordered_def)
  show ?thesis
    using fingerprint_ignores_key_order [OF h] s n hash_forward by simp
qed


end
